theory Spec2Isabelle
  imports Complex_Main "HOL-Library.Sublist"
begin

section \<open>Python strings\<close>

text \<open>
  A Python \<open>str\<close> is a sequence of Unicode code points, and \<open>len\<close>, slicing,
  \<open>strip\<close>, \<open>replace\<close> and \<open>in\<close> all work on code points. The script inserts
  U+200B and writes Japanese text, so a string is modelled as the list of its code
  points (natural numbers); \<open>ascii\<close> turns an ASCII literal into such a list.
\<close>

type_synonym pystr = "nat list"

definition ascii :: "string \<Rightarrow> pystr" where
  "ascii s = map of_char s"

text \<open>
  \<open>str.isspace\<close> on one code point; the regular expression class \<open>\s\<close> of a
  \<open>str\<close> pattern accepts the same code points.
\<close>

definition isspace :: "nat \<Rightarrow> bool" where
  "isspace c \<longleftrightarrow>
     (9 \<le> c \<and> c \<le> 13) \<or> (28 \<le> c \<and> c \<le> 32) \<or> c = 133 \<or> c = 160 \<or> c = 5760 \<or>
     (8192 \<le> c \<and> c \<le> 8202) \<or> c = 8232 \<or> c = 8233 \<or> c = 8239 \<or> c = 8287 \<or>
     c = 12288"

definition strip :: "pystr \<Rightarrow> pystr" where
  "strip s = rev (dropWhile isspace (rev (dropWhile isspace s)))"

text \<open>\<open>sub in s\<close>: \<open>sub\<close> occurs in \<open>s\<close> as a contiguous run.\<close>

fun contains :: "pystr \<Rightarrow> pystr \<Rightarrow> bool" where
  "contains sub [] = (sub = [])"
| "contains sub (c # cs) = (prefix sub (c # cs) \<or> contains sub cs)"

text \<open>\<open>sep.join(xs)\<close>.\<close>

fun join :: "pystr \<Rightarrow> pystr list \<Rightarrow> pystr" where
  "join sep [] = []"
| "join sep [x] = x"
| "join sep (x # y # ys) = x @ sep @ join sep (y # ys)"

text \<open>
  \<open>s.replace(old, new)\<close>: the occurrences of \<open>old\<close> are found from the left and do
  not overlap; after a replacement the scan goes on behind the replaced run. With an
  empty \<open>old\<close> Python puts \<open>new\<close> before every code point and at the end.
\<close>

fun replace_from :: "pystr \<Rightarrow> pystr \<Rightarrow> pystr \<Rightarrow> pystr" where
  "replace_from old new [] = []"
| "replace_from old new (c # cs) =
     (if prefix old (c # cs) then new @ replace_from old new (drop (length old - 1) cs)
      else c # replace_from old new cs)"

definition replace :: "pystr \<Rightarrow> pystr \<Rightarrow> pystr \<Rightarrow> pystr" where
  "replace old new s =
     (if old = [] then new @ concat (map (\<lambda>c. c # new) s) else replace_from old new s)"

section \<open>The similarity ratio of \<open>difflib.SequenceMatcher\<close>\<close>

text \<open>
  The resolver scores a line with \<open>difflib.SequenceMatcher(None, a, b).ratio()\<close> of
  the Python standard library. This section follows that class for \<open>isjunk = None\<close>
  and \<open>autojunk = True\<close>, the way the resolver calls it.

  \<open>__chain_b\<close>: \<open>b2j\<close> maps an element to the ascending positions it has in \<open>b\<close>;
  when \<open>b\<close> has 200 elements or more, an element that fills more than one percent
  of \<open>b\<close> (plus one) is popular and loses its entry.
\<close>

definition popular :: "pystr \<Rightarrow> nat \<Rightarrow> bool" where
  "popular b c \<longleftrightarrow> 200 \<le> length b \<and> length b div 100 + 1 < count_list b c"

definition b2j :: "pystr \<Rightarrow> nat \<Rightarrow> nat list" where
  "b2j b c = (if popular b c then [] else filter (\<lambda>j. b ! j = c) [0..<length b])"

text \<open>
  \<open>find_longest_match\<close> on the window \<open>a[alo:ahi]\<close>, \<open>b[blo:bhi]\<close>. A match is
  the triple \<open>(besti, bestj, bestsize)\<close>. The dictionary \<open>j2len\<close> holds, for the
  row before, the length of the match ending at each position of \<open>b\<close>;
  \<open>j2len.get(j-1, 0)\<close> finds nothing for \<open>j = 0\<close>. With no junk the two closing
  loops of the source, which extend over junk only, never run.
\<close>

type_synonym match = "nat \<times> nat \<times> nat"

definition j2lenget :: "(nat \<rightharpoonup> nat) \<Rightarrow> nat \<Rightarrow> nat" where
  "j2lenget j2len j = (if j = 0 then 0 else case j2len (j - 1) of None \<Rightarrow> 0 | Some v \<Rightarrow> v)"

fun inner_step :: "nat \<Rightarrow> (nat \<rightharpoonup> nat) \<Rightarrow> (nat \<rightharpoonup> nat) \<times> match \<Rightarrow> nat \<Rightarrow> (nat \<rightharpoonup> nat) \<times> match" where
  "inner_step i j2len (newj2len, (besti, bestj, bestsize)) j =
     (let k = j2lenget j2len j + 1
      in (newj2len(j \<mapsto> k),
          if k > bestsize then (i + 1 - k, j + 1 - k, k) else (besti, bestj, bestsize)))"

fun outer_loop :: "pystr \<Rightarrow> pystr \<Rightarrow> nat \<Rightarrow> nat \<Rightarrow> nat list \<Rightarrow> (nat \<rightharpoonup> nat) \<times> match \<Rightarrow> (nat \<rightharpoonup> nat) \<times> match" where
  "outer_loop a b blo bhi [] st = st"
| "outer_loop a b blo bhi (i # is) (j2len, best) =
     outer_loop a b blo bhi is
       (foldl (inner_step i j2len) (Map.empty, best)
          (filter (\<lambda>j. blo \<le> j \<and> j < bhi) (b2j b (a ! i))))"

function extend_left :: "pystr \<Rightarrow> pystr \<Rightarrow> nat \<Rightarrow> nat \<Rightarrow> match \<Rightarrow> match" where
  "extend_left a b alo blo (besti, bestj, bestsize) =
     (if besti > alo \<and> bestj > blo \<and> a ! (besti - 1) = b ! (bestj - 1)
      then extend_left a b alo blo (besti - 1, bestj - 1, bestsize + 1)
      else (besti, bestj, bestsize))"
  by pat_completeness auto
termination
  by (relation "measure (\<lambda>(a, b, alo, blo, besti, bestj, bestsize). besti)") auto

declare extend_left.simps [simp del]

function extend_right :: "pystr \<Rightarrow> pystr \<Rightarrow> nat \<Rightarrow> nat \<Rightarrow> match \<Rightarrow> match" where
  "extend_right a b ahi bhi (besti, bestj, bestsize) =
     (if besti + bestsize < ahi \<and> bestj + bestsize < bhi \<and>
         a ! (besti + bestsize) = b ! (bestj + bestsize)
      then extend_right a b ahi bhi (besti, bestj, bestsize + 1)
      else (besti, bestj, bestsize))"
  by pat_completeness auto
termination
  by (relation "measure (\<lambda>(a, b, ahi, bhi, besti, bestj, bestsize). ahi - (besti + bestsize))") auto

declare extend_right.simps [simp del]

definition find_longest_match :: "pystr \<Rightarrow> pystr \<Rightarrow> nat \<Rightarrow> nat \<Rightarrow> nat \<Rightarrow> nat \<Rightarrow> match" where
  "find_longest_match a b alo ahi blo bhi =
     extend_right a b ahi bhi
       (extend_left a b alo blo
          (snd (outer_loop a b blo bhi [alo..<ahi] (Map.empty, (alo, blo, 0)))))"

definition in_window :: "nat \<Rightarrow> nat \<Rightarrow> match \<Rightarrow> bool" where
  "in_window lo hi m = (case m of (besti, bestj, bestsize) \<Rightarrow> lo \<le> besti \<and> besti + bestsize \<le> hi)"

lemma in_window_mono: "in_window lo n m \<Longrightarrow> n \<le> n' \<Longrightarrow> in_window lo n' m"
  by (cases m) (auto simp: in_window_def)

lemma inner_step_in_window:
  assumes "j2lenget j2len j + lo \<le> i" "in_window lo (i + 1) (snd st)"
  shows "in_window lo (i + 1) (snd (inner_step i j2len st j))"
  using assms by (cases st) (auto simp: in_window_def Let_def)

lemma inner_loop_in_window:
  assumes "\<forall>j. j2lenget j2len j + lo \<le> i"
  shows "in_window lo (i + 1) (snd st) \<Longrightarrow>
         in_window lo (i + 1) (snd (foldl (inner_step i j2len) st js))"
proof (induction js arbitrary: st)
  case Nil
  then show ?case by simp
next
  case (Cons j js)
  from assms have "j2lenget j2len j + lo \<le> i" by blast
  with Cons.prems have "in_window lo (i + 1) (snd (inner_step i j2len st j))"
    by (rule inner_step_in_window[rotated])
  then show ?case using Cons.IH by simp
qed

lemma inner_step_j2len:
  assumes "\<forall>j. j2lenget j2len j + lo \<le> i" "\<forall>j. j2lenget (fst st) j + lo \<le> i + 1"
  shows "\<forall>j'. j2lenget (fst (inner_step i j2len st j)) j' + lo \<le> i + 1"
proof
  fix j'
  obtain new besti bestj bestsize where st: "st = (new, (besti, bestj, bestsize))"
    by (cases st) auto
  from assms(1) have k: "j2lenget j2len j + lo \<le> i" by blast
  from assms(2) st have old: "j2lenget new j' + lo \<le> i + 1" by simp
  have "j2lenget (new(j \<mapsto> j2lenget j2len j + 1)) j' =
        (if j' \<noteq> 0 \<and> j' - 1 = j then j2lenget j2len j + 1 else j2lenget new j')"
    by (simp add: j2lenget_def)
  with k old show "j2lenget (fst (inner_step i j2len st j)) j' + lo \<le> i + 1"
    by (simp add: st Let_def)
qed

lemma inner_loop_j2len:
  assumes "\<forall>j. j2lenget j2len j + lo \<le> i"
  shows "\<forall>j. j2lenget (fst st) j + lo \<le> i + 1 \<Longrightarrow>
         \<forall>j. j2lenget (fst (foldl (inner_step i j2len) st js)) j + lo \<le> i + 1"
proof (induction js arbitrary: st)
  case Nil
  then show ?case by simp
next
  case (Cons j js)
  have "\<forall>j'. j2lenget (fst (inner_step i j2len st j)) j' + lo \<le> i + 1"
    using assms Cons.prems by (rule inner_step_j2len)
  then show ?case using Cons.IH by simp
qed

lemma outer_loop_in_window:
  "\<forall>j. j2lenget (fst st) j + lo \<le> alo \<Longrightarrow> in_window lo alo (snd st) \<Longrightarrow> alo \<le> ahi \<Longrightarrow>
   in_window lo ahi (snd (outer_loop a b blo bhi [alo..<ahi] st))"
proof (induction "ahi - alo" arbitrary: alo st)
  case 0
  then show ?case by simp
next
  case (Suc n)
  then have lt: "alo < ahi" by simp
  obtain j2len best where st: "st = (j2len, best)" by (cases st)
  let ?st' = "foldl (inner_step alo j2len) (Map.empty, best)
          (filter (\<lambda>j. blo \<le> j \<and> j < bhi) (b2j b (a ! alo)))"
  from Suc.prems st have j: "\<forall>j. j2lenget j2len j + lo \<le> alo" and w: "in_window lo alo best"
    by auto
  from j have lo: "lo \<le> alo" by (metis le_add2 le_trans)
  have w': "in_window lo (alo + 1) (snd ?st')"
    using inner_loop_in_window[OF j, of "(Map.empty, best)"] w by (simp add: in_window_mono)
  have j': "\<forall>j. j2lenget (fst ?st') j + lo \<le> alo + 1"
    using inner_loop_j2len[OF j, of "(Map.empty, best)"] lo by (simp add: j2lenget_def)
  have "in_window lo ahi (snd (outer_loop a b blo bhi [Suc alo..<ahi] ?st'))"
    using Suc.hyps(1)[of "Suc alo" ?st'] Suc.hyps(2) j' w' lt by simp
  then show ?case using lt st by (simp add: upt_conv_Cons)
qed

lemma extend_left_in_window: "in_window alo n m \<Longrightarrow> in_window alo n (extend_left a b alo blo m)"
proof (induction a b alo blo m rule: extend_left.induct)
  case (1 a b alo blo besti bestj bestsize)
  show ?case
  proof (cases "besti > alo \<and> bestj > blo \<and> a ! (besti - 1) = b ! (bestj - 1)")
    case True
    from "1.prems" True have "in_window alo n (besti - 1, bestj - 1, bestsize + 1)"
      by (auto simp: in_window_def)
    with True "1.IH" have "in_window alo n (extend_left a b alo blo (besti - 1, bestj - 1, bestsize + 1))"
      by blast
    with True show ?thesis by (subst extend_left.simps) simp
  next
    case False
    with "1.prems" show ?thesis by (subst extend_left.simps) auto
  qed
qed

lemma extend_right_in_window: "in_window lo ahi m \<Longrightarrow> in_window lo ahi (extend_right a b ahi bhi m)"
proof (induction a b ahi bhi m rule: extend_right.induct)
  case (1 a b ahi bhi besti bestj bestsize)
  show ?case
  proof (cases "besti + bestsize < ahi \<and> bestj + bestsize < bhi \<and>
         a ! (besti + bestsize) = b ! (bestj + bestsize)")
    case True
    with "1.prems" have "in_window lo ahi (besti, bestj, bestsize + 1)"
      by (auto simp: in_window_def)
    with True "1.IH" have "in_window lo ahi (extend_right a b ahi bhi (besti, bestj, bestsize + 1))"
      by blast
    with True show ?thesis by (subst extend_right.simps) simp
  next
    case False
    with "1.prems" show ?thesis by (subst extend_right.simps) auto
  qed
qed

lemma find_longest_match_in_window:
  assumes "find_longest_match a b alo ahi blo bhi = (i, j, k)" "k \<noteq> 0"
  shows "alo \<le> i \<and> i + k \<le> ahi"
proof (cases "alo \<le> ahi")
  case True
  have "in_window alo ahi (snd (outer_loop a b blo bhi [alo..<ahi] (Map.empty, (alo, blo, 0))))"
    using True by (intro outer_loop_in_window) (simp_all add: j2lenget_def in_window_def)
  then have "in_window alo ahi (find_longest_match a b alo ahi blo bhi)"
    unfolding find_longest_match_def
    by (intro extend_right_in_window extend_left_in_window)
  with assms(1) show ?thesis by (simp add: in_window_def)
next
  case False
  then have "find_longest_match a b alo ahi blo bhi = (alo, blo, 0)"
    by (simp add: find_longest_match_def extend_left.simps extend_right.simps)
  with assms show ?thesis by simp
qed

lemma flm_left:
  "(i, j, k) = find_longest_match a b alo ahi blo bhi \<Longrightarrow> 0 < k \<Longrightarrow> alo < i \<Longrightarrow>
   i - alo < ahi - alo"
  using find_longest_match_in_window[of a b alo ahi blo bhi i j k] by auto

lemma flm_right:
  "(i, j, k) = find_longest_match a b alo ahi blo bhi \<Longrightarrow> 0 < k \<Longrightarrow> i + k < ahi \<Longrightarrow>
   ahi - (i + k) < ahi - alo"
  using find_longest_match_in_window[of a b alo ahi blo bhi i j k] by auto

text \<open>
  \<open>get_matching_blocks\<close> takes the longest match of a window and goes on in the
  windows left and right of it; \<open>ratio\<close> only adds up the sizes of the blocks
  found, so the order in which the source's queue visits the windows does not matter
  and the model adds them up directly. The recursion ends because a match of
  positive size lies inside its window.
\<close>

function matching_total :: "pystr \<Rightarrow> pystr \<Rightarrow> nat \<Rightarrow> nat \<Rightarrow> nat \<Rightarrow> nat \<Rightarrow> nat" where
  "matching_total a b alo ahi blo bhi =
     (case find_longest_match a b alo ahi blo bhi of (i, j, k) \<Rightarrow>
        if k = 0 then 0
        else k + (if alo < i \<and> blo < j then matching_total a b alo i blo j else 0)
               + (if i + k < ahi \<and> j + k < bhi then matching_total a b (i + k) ahi (j + k) bhi else 0))"
  by pat_completeness auto
termination
  apply (relation "measure (\<lambda>(a, b, alo, ahi, blo, bhi). ahi - alo)")
    apply simp
   apply (auto intro: flm_left flm_right)
  done

text \<open>
  \<open>ratio\<close> is \<open>2.0 * matches / length\<close>, and \<open>1.0\<close> for two empty sequences. The
  model keeps the exact quotient. Python rounds it to the nearest double and compares
  it with the double nearest to 0.6 and with other such quotients; rounding is
  monotone and keeps apart quotients of lengths far below \<open>2^26\<close>, so the
  comparisons of the resolver come out the same.
\<close>

definition ratio :: "pystr \<Rightarrow> pystr \<Rightarrow> rat" where
  "ratio a b =
     (let matches = matching_total a b 0 (length a) 0 (length b);
          len = length a + length b
      in if len \<noteq> 0 then 2 * of_nat matches / of_nat len else 1)"


section \<open>The excerpt resolver\<close>

text \<open>The first loop of \<open>find_lineno_by_excerpt\<close>: the first line that contains \<open>ex\<close>.\<close>

fun exact_pass :: "pystr \<Rightarrow> nat \<Rightarrow> pystr list \<Rightarrow> nat option" where
  "exact_pass ex i [] = None"
| "exact_pass ex i (line # lines) = (if contains ex line then Some i else exact_pass ex (i + 1) lines)"

text \<open>
  The local function \<open>norm\<close> of the source: \<open>re.sub(r"\s+", " ", s)\<close> turns every
  run of whitespace into one space, then the result is trimmed.
\<close>

function collapse_ws :: "pystr \<Rightarrow> pystr" where
  "collapse_ws [] = []"
| "collapse_ws (c # cs) =
     (if isspace c then 32 # collapse_ws (dropWhile isspace cs) else c # collapse_ws cs)"
  by pat_completeness auto
termination
  by (relation "measure length") (auto simp: length_dropWhile_le less_Suc_eq_le)

definition norm_ws :: "pystr \<Rightarrow> pystr" where
  "norm_ws s = strip (collapse_ws s)"

text \<open>The second loop: the state is \<open>(best_i, best_score)\<close>, replaced on a strictly better score.\<close>

fun fuzzy_pass :: "pystr \<Rightarrow> nat \<Rightarrow> pystr list \<Rightarrow> nat option \<times> rat \<Rightarrow> nat option \<times> rat" where
  "fuzzy_pass exn i [] st = st"
| "fuzzy_pass exn i (line # lines) (best_i, best_score) =
     (let score = ratio exn (norm_ws line)
      in if score > best_score then fuzzy_pass exn (i + 1) lines (Some i, score)
         else fuzzy_pass exn (i + 1) lines (best_i, best_score))"

text \<open>
  \<open>find_lineno_by_excerpt\<close>; \<open>None\<close> is Python's \<open>None\<close>. The last line of the
  source tests \<open>best_i\<close> for truth: it is set and not zero.
\<close>

definition find_lineno_by_excerpt :: "pystr list \<Rightarrow> pystr \<Rightarrow> nat option" where
  "find_lineno_by_excerpt original_lines excerpt =
     (let ex = strip excerpt in
      if ex = [] then None
      else case exact_pass ex 1 original_lines of
        Some i \<Rightarrow> Some i
      | None \<Rightarrow>
          (let exn = norm_ws ex;
               (best_i, best_score) = fuzzy_pass exn 1 original_lines (None, 0)
           in case best_i of
                None \<Rightarrow> None
              | Some i \<Rightarrow> if i \<noteq> 0 \<and> best_score \<ge> 6 / 10 then Some i else None))"

section \<open>The result selector\<close>

text \<open>
  A candidate is a path of the result directory as the glob yields it: its file name
  and the modification time \<open>p.stat().st_mtime\<close> read for the sort.
\<close>

type_synonym candidate = "pystr \<times> rat"

text \<open>
  \<open>s.split(sep, 1)\<close> for a non-empty \<open>sep\<close>: \<open>None\<close> when \<open>sep\<close> does not occur (the
  list has one element and index 1 raises \<open>IndexError\<close>), else the parts before and
  after the first occurrence.
\<close>

fun split_once :: "pystr \<Rightarrow> pystr \<Rightarrow> (pystr \<times> pystr) option" where
  "split_once sep [] = None"
| "split_once sep (c # cs) =
     (if prefix sep (c # cs) then Some ([], drop (length sep) (c # cs))
      else case split_once sep cs of
             None \<Rightarrow> None
           | Some (before, after) \<Rightarrow> Some (c # before, after))"

text \<open>\<open>s.rsplit(".", 1)[0]\<close>: the part before the last dot, all of \<open>s\<close> when it has none.\<close>

definition rsplit_dot_head :: "pystr \<Rightarrow> pystr" where
  "rsplit_dot_head s =
     (if 46 \<in> set s then rev (tl (dropWhile (\<lambda>c. c \<noteq> 46) (rev s))) else s)"

definition model_of_name :: "pystr \<Rightarrow> pystr option" where
  "model_of_name name =
     (case split_once (ascii ''__'') name of
        None \<Rightarrow> None
      | Some (before, after) \<Rightarrow> Some (rsplit_dot_head after))"

definition sorted_by_mtime_desc :: "candidate list \<Rightarrow> candidate list" where
  "sorted_by_mtime_desc cs = rev (sort_key snd (rev cs))"

fun pick_loop :: "candidate list \<Rightarrow> (pystr \<times> candidate) list \<Rightarrow> (pystr \<times> candidate) list" where
  "pick_loop [] latest_per_model = latest_per_model"
| "pick_loop (p # ps) latest_per_model =
     (case model_of_name (fst p) of
        None \<Rightarrow> pick_loop ps latest_per_model
      | Some model \<Rightarrow>
          if model \<notin> fst ` set latest_per_model
          then pick_loop ps (latest_per_model @ [(model, p)])
          else pick_loop ps latest_per_model)"

definition pick_latest_result_jsons_for_stem :: "candidate list \<Rightarrow> candidate list" where
  "pick_latest_result_jsons_for_stem globbed =
     map snd (pick_loop (sorted_by_mtime_desc globbed) [])"

section \<open>Rendering an inline comment\<close>

definition backtick :: nat where
  "backtick = 96"

definition zwsp :: nat where
  "zwsp = 8203"

definition fence :: pystr where
  "fence = [backtick, backtick, backtick]"

text \<open>\<open>_sanitize_fence\<close>: trim, then weaken every fence found by \<open>replace\<close>.\<close>

definition sanitize_fence :: "pystr \<Rightarrow> pystr" where
  "sanitize_fence s = replace fence [backtick, backtick, zwsp, backtick] (strip s)"

text \<open>
  \<open>render_ai_review_comment\<close>. The axes are the list the source joins: a list of
  strings, or the code points of a string when the field holds one string.
\<close>

definition render_ai_review_comment :: "pystr \<Rightarrow> pystr \<Rightarrow> pystr list \<Rightarrow> pystr" where
  "render_ai_review_comment excerpt detail axes =
     (let ex = sanitize_fence excerpt;
          dt = strip detail;
          ax = join (ascii '', '') axes;
          parts = [ascii ''### AI Review'',
                   [],
                   (if ax \<noteq> [] then ascii ''**axes:** '' @ ax else []),
                   [],
                   ascii ''**excerpt:**'',
                   fence @ ascii ''text'',
                   ex,
                   fence,
                   [],
                   dt]
      in join [10] (filter (\<lambda>p. p \<noteq> []) parts))"

section \<open>Assembling the batch\<close>

text \<open>
  The result files hold JSON of the shape
  \<open>{"overall"|"summary": string?, "review_items"|"comments": [item]}\<close> with items
  \<open>{"line": string?, "comment"|"detail": string?, "axis"|"axes": string | [string],
  "lineno": integer?}\<close>. A field is \<open>None\<close> when the key is absent or \<open>null\<close>, which
  \<open>dict.get\<close> does not tell apart. Values of other JSON types are outside this model.
\<close>

datatype axes_value = AxesStr pystr | AxesList "pystr list"

record review_item =
  item_line :: "pystr option"
  item_comment :: "pystr option"
  item_detail :: "pystr option"
  item_axis :: "axes_value option"
  item_axes :: "axes_value option"
  item_lineno :: "int option"

record result_data =
  data_overall :: "pystr option"
  data_summary :: "pystr option"
  data_review_items :: "review_item list option"
  data_comments :: "review_item list option"

text \<open>
  Python's \<open>x or y\<close> on a field that may be \<open>None\<close>: \<open>x\<close> when it is truthy (a
  non-empty string or list), else \<open>y\<close>.
\<close>

definition or_str :: "pystr option \<Rightarrow> pystr \<Rightarrow> pystr" where
  "or_str x y = (case x of Some s \<Rightarrow> if s \<noteq> [] then s else y | None \<Rightarrow> y)"

text \<open>\<open>excerpt = (it.get("line") or "").strip()\<close>\<close>

definition excerpt_of :: "review_item \<Rightarrow> pystr" where
  "excerpt_of it = strip (or_str (item_line it) [])"

text \<open>\<open>detail = it.get("comment") or it.get("detail") or ""\<close>\<close>

definition detail_of :: "review_item \<Rightarrow> pystr" where
  "detail_of it = or_str (item_comment it) (or_str (item_detail it) [])"

text \<open>
  \<open>axes = it.get("axis") or it.get("axes") or []\<close>, as the list of strings that
  \<open>", ".join\<close> iterates over: the elements of a list, the characters of a string.
\<close>

definition axes_parts :: "axes_value \<Rightarrow> pystr list" where
  "axes_parts v = (case v of AxesStr s \<Rightarrow> map (\<lambda>c. [c]) s | AxesList l \<Rightarrow> l)"

definition or_axes :: "axes_value option \<Rightarrow> pystr list \<Rightarrow> pystr list" where
  "or_axes x y = (case x of Some v \<Rightarrow> if axes_parts v \<noteq> [] then axes_parts v else y | None \<Rightarrow> y)"

definition axes_of :: "review_item \<Rightarrow> pystr list" where
  "axes_of it = or_axes (item_axis it) (or_axes (item_axes it) [])"

text \<open>
  The line number of a comment: \<open>lineno = it.get("lineno")\<close>, and when that is
  \<open>None\<close> or zero, \<open>find_lineno_by_excerpt(disk_lines, excerpt) or 1\<close>.
\<close>

definition resolved_or_1 :: "pystr list \<Rightarrow> pystr \<Rightarrow> int" where
  "resolved_or_1 disk_lines excerpt =
     (case find_lineno_by_excerpt disk_lines excerpt of
        Some k \<Rightarrow> if k \<noteq> 0 then int k else 1
      | None \<Rightarrow> 1)"

definition lineno_of :: "pystr list \<Rightarrow> review_item \<Rightarrow> int" where
  "lineno_of disk_lines it =
     (case item_lineno it of
        Some n \<Rightarrow> if n \<noteq> 0 then n else resolved_or_1 disk_lines (excerpt_of it)
      | None \<Rightarrow> resolved_or_1 disk_lines (excerpt_of it))"

record inline_comment =
  ic_path :: pystr
  ic_line :: int
  ic_body :: pystr

text \<open>The loop over the items of one record (\<open>for it in items\<close>), appending to \<open>inline_comments\<close>.\<close>

fun process_items :: "pystr \<Rightarrow> pystr list \<Rightarrow> review_item list \<Rightarrow> inline_comment list \<Rightarrow> inline_comment list" where
  "process_items repo_rel disk_lines [] inline_comments = inline_comments"
| "process_items repo_rel disk_lines (it # items) inline_comments =
     (let excerpt = excerpt_of it; detail = detail_of it; axes = axes_of it
      in if excerpt = [] \<or> detail = [] then process_items repo_rel disk_lines items inline_comments
         else process_items repo_rel disk_lines items
                (inline_comments @
                 [\<lparr>ic_path = repo_rel, ic_line = lineno_of disk_lines it,
                   ic_body = render_ai_review_comment excerpt detail axes\<rparr>]))"

text \<open>
  The in-memory log: \<open>LOG_RING = deque(maxlen=1000)\<close>; appending to a full deque
  drops the oldest entry. \<open>info\<close> and \<open>warn\<close> also print, which is not modelled.
\<close>

definition ring_append :: "pystr \<Rightarrow> pystr list \<Rightarrow> pystr list" where
  "ring_append entry entries =
     (if length entries \<ge> 1000 then drop (length entries - 999) entries @ [entry]
      else entries @ [entry])"

definition info :: "pystr \<Rightarrow> pystr list \<Rightarrow> pystr list" where
  "info msg entries = ring_append (ascii ''[INFO] '' @ msg) entries"

definition warn :: "pystr \<Rightarrow> pystr list \<Rightarrow> pystr list" where
  "warn msg entries = ring_append (ascii ''[WARN] '' @ msg) entries"

record batch_state =
  overall_chunks :: "pystr list"
  inline_comments :: "inline_comment list"
  log_ring :: "pystr list"

text \<open>
  One result file \<open>jp\<close> of a document: \<open>json.loads\<close> either raises (\<open>Inl\<close> with the
  text of the exception; the file is skipped with a warning) or gives the data.
\<close>

type_synonym result_file = "pystr \<times> (pystr + result_data)"

definition overall_of :: "result_data \<Rightarrow> pystr" where
  "overall_of d = or_str (data_overall d) (or_str (data_summary d) [])"

definition or_items :: "review_item list option \<Rightarrow> review_item list \<Rightarrow> review_item list" where
  "or_items x y = (case x of Some l \<Rightarrow> if l \<noteq> [] then l else y | None \<Rightarrow> y)"

definition items_of :: "result_data \<Rightarrow> review_item list" where
  "items_of d = or_items (data_review_items d) (or_items (data_comments d) [])"

definition process_record :: "pystr \<Rightarrow> pystr list \<Rightarrow> result_file \<Rightarrow> batch_state \<Rightarrow> batch_state" where
  "process_record repo_rel disk_lines jp st =
     (case snd jp of
        Inl e \<Rightarrow>
          st\<lparr>log_ring := warn (ascii ''invalid json: '' @ fst jp @ ascii '' ('' @ e @ ascii '')'') (log_ring st)\<rparr>
      | Inr d \<Rightarrow>
          (let overall = overall_of d;
               st1 = (if overall \<noteq> []
                      then st\<lparr>overall_chunks := overall_chunks st @
                              [ascii ''**'' @ repo_rel @ ascii ''**'' @ [10] @ overall]\<rparr>
                      else st)
           in st1\<lparr>inline_comments :=
                    process_items repo_rel disk_lines (items_of d) (inline_comments st1)\<rparr>))"

text \<open>
  A changed document: its path, its lines on disk and the result files the selector
  picked for it. The two outer loops of \<open>main\<close> go over the documents and, in each,
  over its result files.
\<close>

type_synonym srs_file = "pystr \<times> pystr list \<times> result_file list"

definition process_file :: "srs_file \<Rightarrow> batch_state \<Rightarrow> batch_state" where
  "process_file f st =
     (case f of (repo_rel, disk_lines, related) \<Rightarrow>
        foldl (\<lambda>s jp. process_record repo_rel disk_lines jp s) st related)"

definition assemble :: "srs_file list \<Rightarrow> pystr list \<Rightarrow> batch_state" where
  "assemble srs_files entries =
     foldl (\<lambda>s f. process_file f s) \<lparr>overall_chunks = [], inline_comments = [], log_ring = entries\<rparr> srs_files"

text \<open>The payload of the review: the caps, and the entries sent.\<close>

record review_comment =
  rc_path :: pystr
  rc_line :: int
  rc_side :: pystr
  rc_body :: pystr

definition MAX_OVERALL_LEN :: nat where
  "MAX_OVERALL_LEN = 4000"

definition MAX_INLINE :: nat where
  "MAX_INLINE = 80"

definition review_body_of :: "pystr list \<Rightarrow> pystr" where
  "review_body_of chunks =
     (if chunks \<noteq> [] then take MAX_OVERALL_LEN (join [10, 10] chunks) else [])"

definition payload_entry :: "inline_comment \<Rightarrow> review_comment" where
  "payload_entry c = \<lparr>rc_path = ic_path c, rc_line = ic_line c, rc_side = ascii ''RIGHT'', rc_body = ic_body c\<rparr>"

definition review_comments_payload_of :: "inline_comment list \<Rightarrow> review_comment list" where
  "review_comments_payload_of comments = map payload_entry (take MAX_INLINE comments)"

subsection \<open>The loops as maps and filters\<close>

text \<open>
  The loop over the items written as a filter and a map, to compare the loop with:
  an item survives when its excerpt and its detail are not empty, and a surviving
  item gives one comment.
\<close>

definition survives :: "review_item \<Rightarrow> bool" where
  "survives it \<longleftrightarrow> excerpt_of it \<noteq> [] \<and> detail_of it \<noteq> []"

definition comment_of :: "pystr \<Rightarrow> pystr list \<Rightarrow> review_item \<Rightarrow> inline_comment" where
  "comment_of repo_rel disk_lines it =
     \<lparr>ic_path = repo_rel, ic_line = lineno_of disk_lines it,
      ic_body = render_ai_review_comment (excerpt_of it) (detail_of it) (axes_of it)\<rparr>"

text \<open>
  The chunks and the comments that one result file, and one document, contribute,
  again written without the loops.
\<close>

definition record_chunks :: "pystr \<Rightarrow> result_file \<Rightarrow> pystr list" where
  "record_chunks repo_rel jp =
     (case snd jp of Inl e \<Rightarrow> []
      | Inr d \<Rightarrow> if overall_of d \<noteq> [] then [ascii ''**'' @ repo_rel @ ascii ''**'' @ [10] @ overall_of d] else [])"

definition record_comments :: "pystr \<Rightarrow> pystr list \<Rightarrow> result_file \<Rightarrow> inline_comment list" where
  "record_comments repo_rel disk_lines jp =
     (case snd jp of Inl e \<Rightarrow> []
      | Inr d \<Rightarrow> map (comment_of repo_rel disk_lines) (filter survives (items_of d)))"

definition file_chunks :: "srs_file \<Rightarrow> pystr list" where
  "file_chunks f = (case f of (repo_rel, disk_lines, related) \<Rightarrow>
     concat (map (record_chunks repo_rel) related))"

definition file_comments :: "srs_file \<Rightarrow> inline_comment list" where
  "file_comments f = (case f of (repo_rel, disk_lines, related) \<Rightarrow>
     concat (map (record_comments repo_rel disk_lines) related))"

section \<open>Posting to GitHub\<close>

text \<open>\<open>str(n)\<close> for an integer: decimal digits, a minus sign for a negative number.\<close>

function str_nat :: "nat \<Rightarrow> pystr" where
  "str_nat n = (if n < 10 then [48 + n] else str_nat (n div 10) @ [48 + n mod 10])"
  by pat_completeness auto
termination
  by (relation "measure id") auto

declare str_nat.simps [simp del]

definition str_int :: "int \<Rightarrow> pystr" where
  "str_int n = (if n < 0 then 45 # str_nat (nat (- n)) else str_nat (nat n))"

text \<open>
  The world the run acts on. \<open>requests.post\<close> is answered from outside: the answer to
  the k-th POST of the run is \<open>net k\<close>, a response with its status code and text, or
  an exception with its text. The world records the POSTs sent, the calls of
  \<open>post_pull_review\<close>, \<open>post_issue_comment\<close> and \<open>post_inline_comment\<close> made, and
  the log ring.
\<close>

datatype response = Response nat pystr | Raises pystr

datatype payload =
  ReviewPayload pystr pystr "review_comment list"
| CommentPayload pystr
| InlinePayload pystr pystr pystr int pystr

datatype api_call =
  PostPullReview pystr "review_comment list"
| PostIssueComment pystr
| PostInlineComment pystr int pystr

record world =
  requests :: "(pystr \<times> payload) list"
  api_calls :: "api_call list"
  ring :: "pystr list"

text \<open>
  A step of the program runs on a world and either returns a value or raises an
  exception (\<open>Inl\<close> with \<open>str(e)\<close>); the exceptions are those \<open>except Exception\<close>
  catches.
\<close>

type_synonym 'a io = "world \<Rightarrow> (pystr + 'a) \<times> world"

definition return_io :: "'a \<Rightarrow> 'a io" where
  "return_io x w = (Inr x, w)"

definition raise_io :: "pystr \<Rightarrow> 'a io" where
  "raise_io e w = (Inl e, w)"

definition bind_io :: "'a io \<Rightarrow> ('a \<Rightarrow> 'b io) \<Rightarrow> 'b io" where
  "bind_io m f w = (case m w of (Inl e, w1) \<Rightarrow> (Inl e, w1) | (Inr x, w1) \<Rightarrow> f x w1)"

text \<open>\<open>try: m  except Exception as e: handler(e)\<close>\<close>

definition try_except :: "'a io \<Rightarrow> (pystr \<Rightarrow> 'a io) \<Rightarrow> 'a io" where
  "try_except m handler w = (case m w of (Inl e, w1) \<Rightarrow> handler e w1 | (Inr x, w1) \<Rightarrow> (Inr x, w1))"

definition info_io :: "pystr \<Rightarrow> unit io" where
  "info_io msg w = (Inr (), w\<lparr>ring := info msg (ring w)\<rparr>)"

definition warn_io :: "pystr \<Rightarrow> unit io" where
  "warn_io msg w = (Inr (), w\<lparr>ring := warn msg (ring w)\<rparr>)"

text \<open>
  What an answer means to \<open>gh_post\<close>: an exception of \<open>requests.post\<close> is raised
  on, a status of 300 or more raises \<open>RuntimeError\<close> with the URL, the status and the
  text, and any other response is the success.
\<close>

definition outcome_of :: "pystr \<Rightarrow> response \<Rightarrow> pystr + unit" where
  "outcome_of url answer =
     (case answer of
        Raises e \<Rightarrow> Inl e
      | Response status_code text \<Rightarrow>
          if status_code \<ge> 300
          then Inl (ascii ''POST '' @ url @ ascii '' failed: '' @ str_nat status_code @
                    ascii '' '' @ text)
          else Inr ())"

text \<open>One attempt of \<open>gh_post\<close>: send the POST and take the answer.\<close>

definition post_once :: "(nat \<Rightarrow> response) \<Rightarrow> pystr \<Rightarrow> payload \<Rightarrow> unit io" where
  "post_once net url pl w =
     (outcome_of url (net (length (requests w))), w\<lparr>requests := requests w @ [(url, pl)]\<rparr>)"

text \<open>
  \<open>gh_post\<close>: the loop \<open>for i in range(1, max_tries+1)\<close>. A failed attempt is
  raised again when it is the last one, and otherwise logged (the sleep is not
  modelled). The response returned on success is not used by the callers below.
\<close>

fun gh_post_loop :: "(nat \<Rightarrow> response) \<Rightarrow> pystr \<Rightarrow> payload \<Rightarrow> nat \<Rightarrow> nat list \<Rightarrow> unit io" where
  "gh_post_loop net url pl max_tries [] = return_io ()"
| "gh_post_loop net url pl max_tries (i # is) =
     try_except (post_once net url pl)
       (\<lambda>e. if i = max_tries then raise_io e
            else bind_io
                   (warn_io (ascii ''POST retry '' @ str_nat i @ ascii ''/'' @
                             str_nat (max_tries - 1) @ ascii '' after error: '' @ e))
                   (\<lambda>_. gh_post_loop net url pl max_tries is))"

definition gh_post :: "(nat \<Rightarrow> response) \<Rightarrow> pystr \<Rightarrow> payload \<Rightarrow> unit io" where
  "gh_post net url pl = gh_post_loop net url pl 3 [1..<3 + 1]"

text \<open>The warning that \<open>gh_post\<close> logs before its retry number \<open>i\<close>, for three tries.\<close>

definition retry_msg :: "nat \<Rightarrow> pystr \<Rightarrow> pystr" where
  "retry_msg i e = ascii ''POST retry '' @ str_nat i @ ascii ''/'' @ str_nat 2 @ ascii '' after error: '' @ e"

definition called :: "api_call \<Rightarrow> unit io" where
  "called c w = (Inr (), w\<lparr>api_calls := api_calls w @ [c]\<rparr>)"

definition api_base :: pystr where
  "api_base = ascii ''https://api.github.com/repos/''"

definition reviews_url :: "pystr \<Rightarrow> int \<Rightarrow> pystr" where
  "reviews_url repo pr_number = api_base @ repo @ ascii ''/pulls/'' @ str_int pr_number @ ascii ''/reviews''"

definition issue_comments_url :: "pystr \<Rightarrow> int \<Rightarrow> pystr" where
  "issue_comments_url repo pr_number =
     api_base @ repo @ ascii ''/issues/'' @ str_int pr_number @ ascii ''/comments''"

definition post_pull_review ::
  "(nat \<Rightarrow> response) \<Rightarrow> pystr \<Rightarrow> int \<Rightarrow> pystr \<Rightarrow> review_comment list \<Rightarrow> unit io" where
  "post_pull_review net repo pr_number review_body review_comments =
     bind_io (called (PostPullReview review_body review_comments))
       (\<lambda>_. gh_post net (reviews_url repo pr_number)
               (ReviewPayload review_body (ascii ''COMMENT'') review_comments))"

definition post_issue_comment :: "(nat \<Rightarrow> response) \<Rightarrow> pystr \<Rightarrow> int \<Rightarrow> pystr \<Rightarrow> unit io" where
  "post_issue_comment net repo pr_number body =
     bind_io (called (PostIssueComment body))
       (\<lambda>_. gh_post net (issue_comments_url repo pr_number) (CommentPayload body))"

definition post_inline_comment ::
  "(nat \<Rightarrow> response) \<Rightarrow> pystr \<Rightarrow> int \<Rightarrow> pystr \<Rightarrow> pystr \<Rightarrow> int \<Rightarrow> pystr \<Rightarrow> unit io" where
  "post_inline_comment net repo pr_number commit_sha path line body =
     bind_io (called (PostInlineComment path line body))
       (\<lambda>_. gh_post net (api_base @ repo @ ascii ''/pulls/'' @ str_int pr_number @ ascii ''/comments'')
               (InlinePayload commit_sha path (ascii ''RIGHT'') line body))"

section \<open>Submitting the review\<close>

text \<open>
  The fixed texts of the failure notice, which the source writes in Japanese: the
  title (the CI review could not be posted, check the details), the heading of the
  reason, the labels of the two counts with their yes and no, the label of the link to
  the run, the heading of the log excerpt (last 120 lines) and the closing advice.
\<close>

definition notice_title :: pystr where
  "notice_title = [67, 73, 32, 12524, 12499, 12517, 12540, 12398, 25237, 31295, 12395, 22833,
     25943, 12375, 12414, 12375, 12383, 12290, 35443, 32048, 12434, 30906, 35469, 12375, 12390,
     12367, 12384, 12373, 12356, 12290]"

definition notice_reason :: pystr where
  "notice_reason = [45, 32, 22833, 25943, 29702, 30001, 32, 40, 20363, 22806, 41, 58]"

definition notice_overall_label :: pystr where
  "notice_overall_label = [45, 32, 32207, 35413, 12398, 26377, 28961, 58, 32]"

definition notice_yes :: pystr where
  "notice_yes = [12354, 12426]"

definition notice_no :: pystr where
  "notice_no = [12394, 12375]"

definition notice_inline_label :: pystr where
  "notice_inline_label = [45, 32, 12452, 12531, 12521, 12452, 12531, 20104, 23450, 20214, 25968,
     58, 32]"

definition notice_log_link_label :: pystr where
  "notice_log_link_label = [65, 99, 116, 105, 111, 110, 115, 32, 12398, 23455, 34892, 12525,
     12464, 58, 32]"

definition notice_log_excerpt :: pystr where
  "notice_log_excerpt = [45, 32, 12525, 12464, 25244, 31883, 32, 40, 26411, 23614, 32, 49, 50,
     48, 32, 34892, 41, 58]"

definition notice_footer :: pystr where
  "notice_footer = [24517, 35201, 12395, 24540, 12376, 12390, 32, 80, 82, 32, 12395, 12521,
     12505, 12523, 32, 96, 99, 105, 45, 114, 101, 118, 105, 101, 119, 96, 32, 12434, 20184,
     12369, 30452, 12375, 12390, 20877, 23455, 34892, 12375, 12390, 12367, 12384, 12373, 12356,
     12290]"

text \<open>
  The environment is \<open>os.environ\<close>. \<open>run_url\<close> is built when \<open>GITHUB_RUN_ID\<close> is set
  and not empty, from \<open>GITHUB_SERVER_URL\<close> (default \<open>https://github.com\<close>) and
  \<open>GITHUB_REPOSITORY\<close> (default \<open>repo\<close>).
\<close>

type_synonym environ = "pystr \<Rightarrow> pystr option"

definition environ_get :: "environ \<Rightarrow> pystr \<Rightarrow> pystr \<Rightarrow> pystr" where
  "environ_get env key dflt = (case env key of Some v \<Rightarrow> v | None \<Rightarrow> dflt)"

definition run_url_of :: "environ \<Rightarrow> pystr \<Rightarrow> pystr option" where
  "run_url_of env repo =
     (let server = environ_get env (ascii ''GITHUB_SERVER_URL'') (ascii ''https://github.com'');
          repo_env = environ_get env (ascii ''GITHUB_REPOSITORY'') repo
      in case env (ascii ''GITHUB_RUN_ID'') of
           None \<Rightarrow> None
         | Some run_id \<Rightarrow>
             if run_id \<noteq> [] then Some (server @ ascii ''/'' @ repo_env @ ascii ''/actions/runs/'' @ run_id)
             else None)"

text \<open>\<open>list(LOG_RING)[-120:]\<close>\<close>

definition tail_lines_of :: "pystr list \<Rightarrow> pystr list" where
  "tail_lines_of entries = drop (length entries - 120) entries"

text \<open>The lines of the notice, as the \<open>except\<close> branch of \<open>main\<close> collects them.\<close>

definition failure_notice_lines ::
  "pystr \<Rightarrow> pystr \<Rightarrow> review_comment list \<Rightarrow> pystr option \<Rightarrow> pystr list \<Rightarrow> pystr list" where
  "failure_notice_lines e review_body review_comments_payload run_url ring_now =
     (let lines0 = [notice_title,
                    [],
                    notice_reason,
                    fence @ ascii ''text'',
                    e,
                    fence,
                    notice_overall_label @ (if review_body \<noteq> [] then notice_yes else notice_no),
                    notice_inline_label @ str_nat (length review_comments_payload)];
          lines1 = (case run_url of
                      Some u \<Rightarrow> lines0 @ [[], notice_log_link_label @ u]
                    | None \<Rightarrow> lines0);
          tail_lines = tail_lines_of ring_now;
          lines2 = (if tail_lines \<noteq> []
                    then lines1 @ [[], notice_log_excerpt, fence @ ascii ''text'',
                                   sanitize_fence (join [10] tail_lines), fence]
                    else lines1)
      in lines2 @ [[], notice_footer])"

text \<open>
  The last statement of \<open>main\<close>, the \<open>try\<close> of lines 437 to 486: one call of
  \<open>post_pull_review\<close> for the whole review, and when that raises, the warning, the
  notice and one call of \<open>post_issue_comment\<close>, whose own failure is logged. \<open>main\<close>
  does nothing after it, so \<open>main\<close> returns when this statement does.
\<close>

definition notify_failure ::
  "(nat \<Rightarrow> response) \<Rightarrow> environ \<Rightarrow> pystr \<Rightarrow> int \<Rightarrow> pystr \<Rightarrow> review_comment list \<Rightarrow> pystr \<Rightarrow> unit io" where
  "notify_failure net env repo pr_number review_body review_comments_payload e =
     bind_io (warn_io (ascii ''post_pull_review failed: '' @ e))
       (\<lambda>_ w.
          try_except
            (bind_io
               (post_issue_comment net repo pr_number
                  (join [10] (failure_notice_lines e review_body review_comments_payload
                                (run_url_of env repo) (ring w))))
               (\<lambda>_. info_io (ascii ''Posted failure notice comment instead of inline fallback.'')))
            (\<lambda>e2. warn_io (ascii ''failed to post failure notice: '' @ e2))
            w)"

definition submit ::
  "(nat \<Rightarrow> response) \<Rightarrow> environ \<Rightarrow> pystr \<Rightarrow> int \<Rightarrow> pystr \<Rightarrow> review_comment list \<Rightarrow> unit io" where
  "submit net env repo pr_number review_body review_comments_payload =
     try_except
       (bind_io (post_pull_review net repo pr_number review_body review_comments_payload)
          (\<lambda>_. info_io (ascii ''Posted review: overall='' @
                          (if review_body \<noteq> [] then ascii ''yes'' else ascii ''no'') @
                          ascii '', inline='' @ str_nat (length review_comments_payload))))
       (notify_failure net env repo pr_number review_body review_comments_payload)"

section \<open>Lemmas on strings\<close>

lemma contains_iff: "contains sub s \<longleftrightarrow> (\<exists>ps ss. s = ps @ sub @ ss)"
proof (induction s)
  case Nil
  then show ?case by auto
next
  case (Cons c cs)
  show ?case
  proof
    assume "contains sub (c # cs)"
    then consider "prefix sub (c # cs)" | "contains sub cs" by auto
    then show "\<exists>ps ss. c # cs = ps @ sub @ ss"
    proof cases
      case 1
      then obtain ss where "c # cs = sub @ ss" by (auto simp: prefix_def)
      then have "c # cs = [] @ sub @ ss" by simp
      then show ?thesis by blast
    next
      case 2
      with Cons.IH obtain ps ss where "cs = ps @ sub @ ss" by blast
      then have "c # cs = (c # ps) @ sub @ ss" by simp
      then show ?thesis by blast
    qed
  next
    assume "\<exists>ps ss. c # cs = ps @ sub @ ss"
    then obtain ps ss where eq: "c # cs = ps @ sub @ ss" by blast
    show "contains sub (c # cs)"
    proof (cases ps)
      case Nil
      with eq have "prefix sub (c # cs)" by (simp add: prefix_def)
      then show ?thesis by simp
    next
      case (Cons p ps')
      with eq have "cs = ps' @ sub @ ss" by simp
      with Cons.IH have "contains sub cs" by blast
      then show ?thesis by simp
    qed
  qed
qed

section \<open>The resolver: the two passes\<close>

lemma exact_pass_None: "exact_pass ex k lines = None \<longleftrightarrow> (\<forall>line \<in> set lines. \<not> contains ex line)"
  by (induction lines arbitrary: k) auto

lemma exact_pass_Some:
  "exact_pass ex k lines = Some n \<longleftrightarrow>
     (\<exists>i < length lines. n = k + i \<and> contains ex (lines ! i) \<and> (\<forall>j < i. \<not> contains ex (lines ! j)))"
proof (induction lines arbitrary: k)
  case Nil
  then show ?case by simp
next
  case (Cons line lines)
  show ?case
  proof (cases "contains ex line")
    case True
    show ?thesis
    proof
      assume "exact_pass ex k (line # lines) = Some n"
      with True have "n = k" by simp
      with True show "\<exists>i < length (line # lines). n = k + i \<and> contains ex ((line # lines) ! i) \<and>
          (\<forall>j < i. \<not> contains ex ((line # lines) ! j))"
        by (intro exI[of _ 0]) simp
    next
      assume "\<exists>i < length (line # lines). n = k + i \<and> contains ex ((line # lines) ! i) \<and>
          (\<forall>j < i. \<not> contains ex ((line # lines) ! j))"
      then obtain i where i: "n = k + i" "\<forall>j < i. \<not> contains ex ((line # lines) ! j)" by blast
      have "i = 0"
      proof (rule ccontr)
        assume "i \<noteq> 0"
        with i(2) have "\<not> contains ex ((line # lines) ! 0)" by blast
        with True show False by simp
      qed
      with i True show "exact_pass ex k (line # lines) = Some n" by simp
    qed
  next
    case False
    have "exact_pass ex k (line # lines) = Some n \<longleftrightarrow> exact_pass ex (k + 1) lines = Some n"
      using False by simp
    also have "\<dots> \<longleftrightarrow> (\<exists>i < length lines. n = k + 1 + i \<and> contains ex (lines ! i) \<and>
          (\<forall>j < i. \<not> contains ex (lines ! j)))"
      by (rule Cons.IH)
    also have "\<dots> \<longleftrightarrow> (\<exists>i < length (line # lines). n = k + i \<and> contains ex ((line # lines) ! i) \<and>
          (\<forall>j < i. \<not> contains ex ((line # lines) ! j)))"
    proof
      assume "\<exists>i < length lines. n = k + 1 + i \<and> contains ex (lines ! i) \<and>
          (\<forall>j < i. \<not> contains ex (lines ! j))"
      then obtain i where i: "i < length lines" "n = k + 1 + i" "contains ex (lines ! i)"
        "\<forall>j < i. \<not> contains ex (lines ! j)" by blast
      have "\<forall>j < Suc i. \<not> contains ex ((line # lines) ! j)"
        using i(4) False by (auto simp: nth_Cons split: nat.splits)
      with i(1-3) show "\<exists>i < length (line # lines). n = k + i \<and> contains ex ((line # lines) ! i) \<and>
          (\<forall>j < i. \<not> contains ex ((line # lines) ! j))"
        by (intro exI[of _ "Suc i"]) simp
    next
      assume "\<exists>i < length (line # lines). n = k + i \<and> contains ex ((line # lines) ! i) \<and>
          (\<forall>j < i. \<not> contains ex ((line # lines) ! j))"
      then obtain i where i: "i < length (line # lines)" "n = k + i" "contains ex ((line # lines) ! i)"
        "\<forall>j < i. \<not> contains ex ((line # lines) ! j)" by blast
      from i(3) False obtain i' where i': "i = Suc i'" by (cases i) auto
      have "\<forall>j < i'. \<not> contains ex (lines ! j)"
      proof (intro allI impI)
        fix j assume "j < i'"
        then have "Suc j < i" using i' by simp
        with i(4) have "\<not> contains ex ((line # lines) ! Suc j)" by blast
        then show "\<not> contains ex (lines ! j)" by simp
      qed
      with i i' show "\<exists>i < length lines. n = k + 1 + i \<and> contains ex (lines ! i) \<and>
          (\<forall>j < i. \<not> contains ex (lines ! j))"
        by (intro exI[of _ i']) simp
    qed
    finally show ?thesis .
  qed
qed

lemma fuzzy_pass_result:
  "fuzzy_pass exn k lines (bi, bs) = (bi', bs') \<Longrightarrow>
     (bi' = bi \<and> bs' = bs \<and> (\<forall>j < length lines. ratio exn (norm_ws (lines ! j)) \<le> bs)) \<or>
     (\<exists>i < length lines. bi' = Some (k + i) \<and> bs' = ratio exn (norm_ws (lines ! i)) \<and> bs < bs' \<and>
        (\<forall>j < i. ratio exn (norm_ws (lines ! j)) < bs') \<and>
        (\<forall>j < length lines. ratio exn (norm_ws (lines ! j)) \<le> bs'))"
proof (induction lines arbitrary: k bi bs)
  case Nil
  then show ?case by simp
next
  case (Cons line lines)
  let ?s = "ratio exn (norm_ws line)"
  let ?sc = "\<lambda>j. ratio exn (norm_ws ((line # lines) ! j))"
  show ?case
  proof (cases "?s > bs")
    case True
    with Cons.prems have run: "fuzzy_pass exn (k + 1) lines (Some k, ?s) = (bi', bs')"
      by simp
    from Cons.IH[OF run] show ?thesis
    proof
      assume a: "bi' = Some k \<and> bs' = ?s \<and> (\<forall>j < length lines. ratio exn (norm_ws (lines ! j)) \<le> ?s)"
      have "\<forall>j < length (line # lines). ?sc j \<le> bs'"
        using a by (auto simp: nth_Cons split: nat.splits)
      with a True have "0 < length (line # lines) \<and> bi' = Some (k + 0) \<and> bs' = ?sc 0 \<and> bs < bs' \<and>
        (\<forall>j < 0. ?sc j < bs') \<and> (\<forall>j < length (line # lines). ?sc j \<le> bs')"
        by simp
      then show ?thesis by blast
    next
      assume "\<exists>i < length lines. bi' = Some (k + 1 + i) \<and> bs' = ratio exn (norm_ws (lines ! i)) \<and> ?s < bs' \<and>
        (\<forall>j < i. ratio exn (norm_ws (lines ! j)) < bs') \<and>
        (\<forall>j < length lines. ratio exn (norm_ws (lines ! j)) \<le> bs')"
      then obtain i where i: "i < length lines" "bi' = Some (k + 1 + i)"
        "bs' = ratio exn (norm_ws (lines ! i))" "?s < bs'"
        "\<forall>j < i. ratio exn (norm_ws (lines ! j)) < bs'"
        "\<forall>j < length lines. ratio exn (norm_ws (lines ! j)) \<le> bs'" by blast
      have 1: "\<forall>j < Suc i. ?sc j < bs'"
        using i(4,5) by (auto simp: nth_Cons split: nat.splits)
      have 2: "\<forall>j < length (line # lines). ?sc j \<le> bs'"
        using i(4,6) by (auto simp: nth_Cons split: nat.splits)
      from i True 1 2 have "Suc i < length (line # lines) \<and> bi' = Some (k + Suc i) \<and> bs' = ?sc (Suc i) \<and> bs < bs' \<and>
        (\<forall>j < Suc i. ?sc j < bs') \<and> (\<forall>j < length (line # lines). ?sc j \<le> bs')"
        by simp
      then show ?thesis by blast
    qed
  next
    case False
    with Cons.prems have run: "fuzzy_pass exn (k + 1) lines (bi, bs) = (bi', bs')"
      by simp
    from Cons.IH[OF run] show ?thesis
    proof
      assume a: "bi' = bi \<and> bs' = bs \<and> (\<forall>j < length lines. ratio exn (norm_ws (lines ! j)) \<le> bs)"
      have "\<forall>j < length (line # lines). ?sc j \<le> bs"
        using a False by (auto simp: nth_Cons split: nat.splits)
      with a show ?thesis by blast
    next
      assume "\<exists>i < length lines. bi' = Some (k + 1 + i) \<and> bs' = ratio exn (norm_ws (lines ! i)) \<and> bs < bs' \<and>
        (\<forall>j < i. ratio exn (norm_ws (lines ! j)) < bs') \<and>
        (\<forall>j < length lines. ratio exn (norm_ws (lines ! j)) \<le> bs')"
      then obtain i where i: "i < length lines" "bi' = Some (k + 1 + i)"
        "bs' = ratio exn (norm_ws (lines ! i))" "bs < bs'"
        "\<forall>j < i. ratio exn (norm_ws (lines ! j)) < bs'"
        "\<forall>j < length lines. ratio exn (norm_ws (lines ! j)) \<le> bs'" by blast
      have 1: "\<forall>j < Suc i. ?sc j < bs'"
        using i(4,5) False by (auto simp: nth_Cons split: nat.splits)
      have 2: "\<forall>j < length (line # lines). ?sc j \<le> bs'"
        using i(4,6) False by (auto simp: nth_Cons split: nat.splits)
      from i 1 2 have "Suc i < length (line # lines) \<and> bi' = Some (k + Suc i) \<and> bs' = ?sc (Suc i) \<and> bs < bs' \<and>
        (\<forall>j < Suc i. ?sc j < bs') \<and> (\<forall>j < length (line # lines). ?sc j \<le> bs')"
        by simp
      then show ?thesis by blast
    qed
  qed
qed


lemma find_lineno_exact:
  assumes "strip excerpt \<noteq> []" "exact_pass (strip excerpt) 1 lines = Some n"
  shows "find_lineno_by_excerpt lines excerpt = Some n"
  using assms by (simp add: find_lineno_by_excerpt_def)

lemma find_lineno_fuzzy:
  assumes "strip excerpt \<noteq> []" "exact_pass (strip excerpt) 1 lines = None"
    "fuzzy_pass (norm_ws (strip excerpt)) 1 lines (None, 0) = (bi, bs)"
  shows "find_lineno_by_excerpt lines excerpt =
         (case bi of None \<Rightarrow> None | Some i \<Rightarrow> if i \<noteq> 0 \<and> bs \<ge> 6 / 10 then Some i else None)"
  using assms by (simp add: find_lineno_by_excerpt_def)

text \<open>
  C1, as amended. The resolver trims the excerpt first and looks for the trimmed
  excerpt: when the trimmed excerpt is not empty and some line contains it, the result
  is the 1-based index of the first line that contains the trimmed excerpt, and it is
  the result of the exact pass alone (the fuzzy pass and \<open>ratio\<close> play no part).
\<close>

theorem resolve_exact_first_occurrence:
  assumes "strip excerpt \<noteq> []"
    and "\<exists>line \<in> set lines. contains (strip excerpt) line"
  shows "\<exists>i < length lines.
           find_lineno_by_excerpt lines excerpt = Some (i + 1) \<and>
           contains (strip excerpt) (lines ! i) \<and>
           (\<forall>j < i. \<not> contains (strip excerpt) (lines ! j)) \<and>
           find_lineno_by_excerpt lines excerpt = exact_pass (strip excerpt) 1 lines"
proof -
  from assms(2) have "exact_pass (strip excerpt) 1 lines \<noteq> None"
    by (simp add: exact_pass_None)
  then obtain n where n: "exact_pass (strip excerpt) 1 lines = Some n" by blast
  then obtain i where i: "i < length lines" "n = 1 + i" "contains (strip excerpt) (lines ! i)"
    "\<forall>j < i. \<not> contains (strip excerpt) (lines ! j)"
    unfolding exact_pass_Some by blast
  from find_lineno_exact[OF assms(1) n] n i show ?thesis by auto
qed

text \<open>
  C2, as amended. The resolver returns \<open>None\<close> exactly when the excerpt is empty after
  trimming, or no line contains the trimmed excerpt and every line has a normalized
  similarity to it below 0.6.
\<close>

theorem resolve_unresolved_iff:
  "find_lineno_by_excerpt lines excerpt = None \<longleftrightarrow>
     strip excerpt = [] \<or>
     ((\<forall>line \<in> set lines. \<not> contains (strip excerpt) line) \<and>
      (\<forall>line \<in> set lines. ratio (norm_ws (strip excerpt)) (norm_ws line) < 6 / 10))"
proof (cases "strip excerpt = []")
  case True
  then show ?thesis by (simp add: find_lineno_by_excerpt_def)
next
  case ne: False
  show ?thesis
  proof (cases "exact_pass (strip excerpt) 1 lines")
    case (Some n)
    then have "\<not> (\<forall>line \<in> set lines. \<not> contains (strip excerpt) line)"
      using exact_pass_None[of "strip excerpt" 1 lines] by simp
    with find_lineno_exact[OF ne Some] ne show ?thesis by simp
  next
    case None
    then have nosub: "\<forall>line \<in> set lines. \<not> contains (strip excerpt) line"
      by (simp add: exact_pass_None)
    let ?sc = "\<lambda>j. ratio (norm_ws (strip excerpt)) (norm_ws (lines ! j))"
    have all_iff: "(\<forall>line \<in> set lines. ratio (norm_ws (strip excerpt)) (norm_ws line) < 6 / 10)
        \<longleftrightarrow> (\<forall>j < length lines. ?sc j < 6 / 10)"
      by (simp only: all_set_conv_all_nth)
    obtain bi bs where run: "fuzzy_pass (norm_ws (strip excerpt)) 1 lines (None, 0) = (bi, bs)"
      by (cases "fuzzy_pass (norm_ws (strip excerpt)) 1 lines (None, 0)")
    note res = find_lineno_fuzzy[OF ne None run]
    from fuzzy_pass_result[OF run] show ?thesis
    proof
      assume a: "bi = None \<and> bs = 0 \<and> (\<forall>j < length lines. ?sc j \<le> 0)"
      then have "\<forall>j < length lines. ?sc j < 6 / 10" by fastforce
      with a res ne nosub all_iff show ?thesis by simp
    next
      assume "\<exists>i < length lines. bi = Some (1 + i) \<and> bs = ?sc i \<and> 0 < bs \<and>
        (\<forall>j < i. ?sc j < bs) \<and> (\<forall>j < length lines. ?sc j \<le> bs)"
      then obtain i where i: "i < length lines" "bi = Some (1 + i)" "bs = ?sc i"
        "\<forall>j < length lines. ?sc j \<le> bs" by blast
      have "(\<forall>j < length lines. ?sc j < 6 / 10) \<longleftrightarrow> bs < 6 / 10"
      proof
        assume "\<forall>j < length lines. ?sc j < 6 / 10"
        with i(1,3) show "bs < 6 / 10" by simp
      next
        assume "bs < 6 / 10"
        with i(4) show "\<forall>j < length lines. ?sc j < 6 / 10" by fastforce
      qed
      with i res ne nosub all_iff show ?thesis by auto
    qed
  qed
qed

lemma find_lineno_range:
  assumes "find_lineno_by_excerpt lines excerpt = Some n"
  shows "1 \<le> n \<and> n \<le> length lines"
proof -
  from assms have ne: "strip excerpt \<noteq> []"
    by (auto simp: find_lineno_by_excerpt_def)
  show ?thesis
  proof (cases "exact_pass (strip excerpt) 1 lines")
    case (Some m)
    with find_lineno_exact[OF ne Some] assms have "exact_pass (strip excerpt) 1 lines = Some n"
      by simp
    then show ?thesis unfolding exact_pass_Some by auto
  next
    case None
    obtain bi bs where run: "fuzzy_pass (norm_ws (strip excerpt)) 1 lines (None, 0) = (bi, bs)"
      by (cases "fuzzy_pass (norm_ws (strip excerpt)) 1 lines (None, 0)")
    from find_lineno_fuzzy[OF ne None run] assms have bi: "bi = Some n"
      by (auto split: option.splits if_splits)
    from fuzzy_pass_result[OF run] bi show ?thesis by auto
  qed
qed

text \<open>
  C10. In the fuzzy pass (a non-empty trimmed excerpt that no line contains), let line
  \<open>i\<close> attain the maximal similarity, let that maximum be at least 0.6, and let every
  earlier line score strictly less, so that \<open>i\<close> is the earliest of the lines that
  attain the maximum. Then the resolver returns \<open>i + 1\<close>. Whatever line number the
  resolver returns lies between 1 and the number of lines.
\<close>

theorem resolve_fuzzy_earliest_maximum:
  assumes "strip excerpt \<noteq> []"
    and "\<forall>line \<in> set lines. \<not> contains (strip excerpt) line"
    and "i < length lines"
    and "6 / 10 \<le> ratio (norm_ws (strip excerpt)) (norm_ws (lines ! i))"
    and "\<forall>j < length lines. ratio (norm_ws (strip excerpt)) (norm_ws (lines ! j))
                         \<le> ratio (norm_ws (strip excerpt)) (norm_ws (lines ! i))"
    and "\<forall>j < i. ratio (norm_ws (strip excerpt)) (norm_ws (lines ! j))
                         < ratio (norm_ws (strip excerpt)) (norm_ws (lines ! i))"
  shows "find_lineno_by_excerpt lines excerpt = Some (i + 1) \<and>
         (\<forall>n. find_lineno_by_excerpt lines excerpt = Some n \<longrightarrow> 1 \<le> n \<and> n \<le> length lines)"
proof -
  let ?sc = "\<lambda>j. ratio (norm_ws (strip excerpt)) (norm_ws (lines ! j))"
  from assms(2) have None: "exact_pass (strip excerpt) 1 lines = None"
    by (simp add: exact_pass_None)
  obtain bi bs where run: "fuzzy_pass (norm_ws (strip excerpt)) 1 lines (None, 0) = (bi, bs)"
    by (cases "fuzzy_pass (norm_ws (strip excerpt)) 1 lines (None, 0)")
  note res = find_lineno_fuzzy[OF assms(1) None run]
  from fuzzy_pass_result[OF run] have "find_lineno_by_excerpt lines excerpt = Some (i + 1)"
  proof
    assume "bi = None \<and> bs = 0 \<and> (\<forall>j < length lines. ?sc j \<le> 0)"
    with assms(3) have "?sc i \<le> 0" by blast
    with assms(4) show ?thesis by simp
  next
    assume "\<exists>i' < length lines. bi = Some (1 + i') \<and> bs = ?sc i' \<and> 0 < bs \<and>
        (\<forall>j < i'. ?sc j < bs) \<and> (\<forall>j < length lines. ?sc j \<le> bs)"
    then obtain i' where i': "i' < length lines" "bi = Some (1 + i')" "bs = ?sc i'"
      "\<forall>j < i'. ?sc j < bs" "\<forall>j < length lines. ?sc j \<le> bs" by blast
    from i'(5) assms(3) have le1: "?sc i \<le> ?sc i'" using i'(3) by blast
    from assms(5) i'(1) have le2: "?sc i' \<le> ?sc i" by blast
    have "i' = i"
    proof (rule ccontr)
      assume "i' \<noteq> i"
      then consider "i' < i" | "i < i'" by linarith
      then show False
      proof cases
        case 1
        with assms(6) have "?sc i' < ?sc i" by blast
        with le1 show False by simp
      next
        case 2
        with i'(4) i'(3) have "?sc i < ?sc i'" by blast
        with le2 show False by simp
      qed
    qed
    with i' assms(4) res show ?thesis by simp
  qed
  with find_lineno_range show ?thesis by blast
qed

lemmas eval_simps =
  ascii_def strip_def isspace_def norm_ws_def find_lineno_by_excerpt_def ratio_def
  find_longest_match_def b2j_def popular_def j2lenget_def extend_left.simps extend_right.simps
  upt_conv_Cons

text \<open>
  C1 as stated fails for an excerpt with surrounding whitespace: the excerpt
  \<open>" fox "\<close> occurs in the second line only, and the resolver returns line 1, where
  the trimmed excerpt occurs.
\<close>

theorem resolve_exact_untrimmed_counterexample:
  "strip (ascii '' fox '') \<noteq> [] \<and>
   contains (ascii '' fox '') ([ascii ''fox'', ascii ''a fox b''] ! 1) \<and>
   \<not> contains (ascii '' fox '') ([ascii ''fox'', ascii ''a fox b''] ! 0) \<and>
   find_lineno_by_excerpt [ascii ''fox'', ascii ''a fox b''] (ascii '' fox '') = Some 1"
  by (simp add: eval_simps)

theorem resolve_exact_first_occurrence_witness:
  "strip (ascii ''brown fox'') \<noteq> [] \<and>
   (\<exists>line \<in> set [ascii ''intro'', ascii ''the quick brown fox'', ascii ''outro''].
      contains (strip (ascii ''brown fox'')) line) \<and>
   find_lineno_by_excerpt [ascii ''intro'', ascii ''the quick brown fox'', ascii ''outro'']
     (ascii ''brown fox'') = Some 2"
proof -
  let ?L = "[ascii ''intro'', ascii ''the quick brown fox'', ascii ''outro'']"
  let ?e = "ascii ''brown fox''"
  have h1: "strip ?e \<noteq> []" by (simp add: eval_simps)
  have h2: "\<exists>line \<in> set ?L. contains (strip ?e) line" by (simp add: eval_simps)
  have ex: "exact_pass (strip ?e) 1 ?L = Some 2" by (simp add: eval_simps)
  from resolve_exact_first_occurrence[OF h1 h2]
  have "find_lineno_by_excerpt ?L ?e = exact_pass (strip ?e) 1 ?L" by blast
  with ex h1 h2 show ?thesis by simp
qed

theorem resolve_unresolved_iff_witness:
  "find_lineno_by_excerpt [ascii ''intro'', ascii ''the quick brown fox'', ascii ''outro'']
     (ascii ''completely unrelated text'') = None"
proof -
  let ?L = "[ascii ''intro'', ascii ''the quick brown fox'', ascii ''outro'']"
  let ?e = "ascii ''completely unrelated text''"
  have "strip ?e = [] \<or>
     ((\<forall>line \<in> set ?L. \<not> contains (strip ?e) line) \<and>
      (\<forall>line \<in> set ?L. ratio (norm_ws (strip ?e)) (norm_ws line) < 6 / 10))"
    by (simp add: eval_simps)
  then show ?thesis by (simp only: resolve_unresolved_iff)
qed

text \<open>
  C2 as stated fails the same way: no line contains the excerpt \<open>" a "\<close>, the one
  line has similarity 1/2 to it, and still the resolver returns line 1, which contains
  the trimmed excerpt.
\<close>

theorem resolve_unresolved_untrimmed_counterexample:
  "strip (ascii '' a '') \<noteq> [] \<and>
   \<not> contains (ascii '' a '') (ascii ''abc'') \<and>
   ratio (norm_ws (ascii '' a '')) (norm_ws (ascii ''abc'')) < 6 / 10 \<and>
   find_lineno_by_excerpt [ascii ''abc''] (ascii '' a '') = Some 1"
  by (simp add: eval_simps)

theorem resolve_fuzzy_earliest_maximum_witness:
  "find_lineno_by_excerpt [ascii ''intro'', ascii ''quick fox'', ascii ''quick  fox'']
     (ascii ''quick fox!'') = Some 2"
proof -
  let ?L = "[ascii ''intro'', ascii ''quick fox'', ascii ''quick  fox'']"
  let ?e = "ascii ''quick fox!''"
  have r0: "ratio (norm_ws (strip ?e)) (norm_ws (ascii ''intro'')) = 4 / 15"
    by (simp add: eval_simps)
  have r1: "ratio (norm_ws (strip ?e)) (norm_ws (ascii ''quick fox'')) = 18 / 19"
    by (simp add: eval_simps)
  have r2: "ratio (norm_ws (strip ?e)) (norm_ws (ascii ''quick  fox'')) = 18 / 19"
    by (simp add: eval_simps)
  have h1: "strip ?e \<noteq> []" by (simp add: eval_simps)
  have h2: "\<forall>line \<in> set ?L. \<not> contains (strip ?e) line" by (simp add: eval_simps)
  have h3: "(1::nat) < length ?L" by simp
  have h4: "6 / 10 \<le> ratio (norm_ws (strip ?e)) (norm_ws (?L ! 1))" by (simp add: r1)
  have h5: "\<forall>j < length ?L. ratio (norm_ws (strip ?e)) (norm_ws (?L ! j))
                         \<le> ratio (norm_ws (strip ?e)) (norm_ws (?L ! 1))"
    by (simp add: r0 r1 r2 less_Suc_eq numeral_3_eq_3)
  have h6: "\<forall>j < 1. ratio (norm_ws (strip ?e)) (norm_ws (?L ! j))
                         < ratio (norm_ws (strip ?e)) (norm_ws (?L ! 1))"
    by (simp add: r0 r1)
  from resolve_fuzzy_earliest_maximum[OF h1 h2 h3 h4 h5 h6] show ?thesis by simp
qed

section \<open>The sanitizer\<close>

text \<open>
  C5 asks that the sanitized excerpt holds no triple backtick, so that the rendered
  body has none between its opening and its closing fence. The code misses that for
  an excerpt of five backticks: the first three are replaced, the scan goes on behind
  them, and the last backtick of the replacement meets the two backticks left over.
  The sanitized excerpt is two backticks, U+200B and three backticks, and the body
  rendered from it has a triple backtick that comes from the excerpt inside the fence.
\<close>

theorem sanitize_fence_five_backticks:
  "sanitize_fence [96, 96, 96, 96, 96] = [96, 96, 8203, 96, 96, 96]
   \<and> contains fence (sanitize_fence [96, 96, 96, 96, 96])
   \<and> render_ai_review_comment [96, 96, 96, 96, 96] (ascii ''d'') [] =
       ascii ''### AI Review'' @ [10] @ ascii ''**excerpt:**'' @ [10] @
       [96, 96, 96] @ ascii ''text'' @ [10] @
       [96, 96, 8203, 96, 96, 96] @ [10] @
       [96, 96, 96] @ [10] @ ascii ''d''"
  by (simp add: sanitize_fence_def replace_def fence_def backtick_def zwsp_def strip_def
      isspace_def render_ai_review_comment_def ascii_def)

section \<open>The result selector: one file per model\<close>

lemma pick_loop_mono: "set d \<subseteq> set (pick_loop xs d)"
proof (induction xs arbitrary: d)
  case Nil
  then show ?case by simp
next
  case (Cons p ps)
  show ?case
  proof (cases "model_of_name (fst p)")
    case None
    then show ?thesis using Cons.IH[of d] by simp
  next
    case (Some m)
    show ?thesis
    proof (cases "m \<in> fst ` set d")
      case True
      with Some show ?thesis using Cons.IH[of d] by simp
    next
      case False
      have "set d \<subseteq> set (d @ [(m, p)])" by auto
      also have "\<dots> \<subseteq> set (pick_loop ps (d @ [(m, p)]))" by (rule Cons.IH)
      finally show ?thesis using Some False by simp
    qed
  qed
qed

lemma pick_loop_distinct:
  "distinct (map fst d) \<Longrightarrow> distinct (map fst (pick_loop xs d))"
proof (induction xs arbitrary: d)
  case Nil
  then show ?case by simp
next
  case (Cons p ps)
  show ?case
  proof (cases "model_of_name (fst p)")
    case None
    then show ?thesis using Cons by simp
  next
    case (Some m)
    show ?thesis
    proof (cases "m \<in> fst ` set d")
      case True
      with Some show ?thesis using Cons by simp
    next
      case False
      with Cons.prems have "distinct (map fst (d @ [(m, p)]))" by auto
      then have "distinct (map fst (pick_loop ps (d @ [(m, p)])))" by (rule Cons.IH)
      with Some False show ?thesis by simp
    qed
  qed
qed

lemma pick_loop_mem:
  "(m, r) \<in> set (pick_loop xs d) \<Longrightarrow>
   (m, r) \<in> set d \<or> (r \<in> set xs \<and> model_of_name (fst r) = Some m)"
proof (induction xs arbitrary: d)
  case Nil
  then show ?case by simp
next
  case (Cons p ps)
  show ?case
  proof (cases "model_of_name (fst p)")
    case None
    with Cons.prems have "(m, r) \<in> set (pick_loop ps d)" by simp
    from Cons.IH[OF this] show ?thesis by auto
  next
    case (Some m')
    show ?thesis
    proof (cases "m' \<in> fst ` set d")
      case True
      with Some Cons.prems have "(m, r) \<in> set (pick_loop ps d)" by simp
      from Cons.IH[OF this] show ?thesis by auto
    next
      case False
      with Some Cons.prems have "(m, r) \<in> set (pick_loop ps (d @ [(m', p)]))" by simp
      from Cons.IH[OF this] Some show ?thesis by auto
    qed
  qed
qed

lemma pick_loop_latest:
  assumes "sorted_wrt (\<lambda>a b. snd a \<ge> snd b) xs" "p \<in> set xs" "model_of_name (fst p) = Some m"
    "m \<notin> fst ` set d"
  shows "\<exists>r. (m, r) \<in> set (pick_loop xs d) \<and> r \<in> set xs \<and> snd p \<le> snd r"
  using assms
proof (induction xs arbitrary: d)
  case Nil
  then show ?case by simp
next
  case (Cons x xs)
  from Cons.prems(1) have sorted: "sorted_wrt (\<lambda>a b. snd a \<ge> snd b) xs"
    and first: "\<forall>y \<in> set xs. snd y \<le> snd x" by auto
  show ?case
  proof (cases "model_of_name (fst x) = Some m")
    case True
    with Cons.prems(4) have run: "pick_loop (x # xs) d = pick_loop xs (d @ [(m, x)])" by simp
    have "(m, x) \<in> set (pick_loop xs (d @ [(m, x)]))"
      using pick_loop_mono[of "d @ [(m, x)]" xs] by auto
    then have mem: "(m, x) \<in> set (pick_loop (x # xs) d)" by (simp only: run)
    have "snd p \<le> snd x" using Cons.prems(2) first by auto
    with mem show ?thesis by (intro exI[of _ x]) simp
  next
    case False
    with Cons.prems(2,3) have p: "p \<in> set xs" by auto
    show ?thesis
    proof (cases "model_of_name (fst x)")
      case None
      then have run: "pick_loop (x # xs) d = pick_loop xs d" by simp
      from Cons.IH[OF sorted p Cons.prems(3,4)] run show ?thesis by auto
    next
      case (Some m')
      with False have ne: "m' \<noteq> m" by simp
      show ?thesis
      proof (cases "m' \<in> fst ` set d")
        case True
        with Some have run: "pick_loop (x # xs) d = pick_loop xs d" by simp
        from Cons.IH[OF sorted p Cons.prems(3,4)] run show ?thesis by auto
      next
        case notin: False
        with Some have run: "pick_loop (x # xs) d = pick_loop xs (d @ [(m', x)])" by simp
        from Cons.prems(4) ne have "m \<notin> fst ` set (d @ [(m', x)])" by auto
        from Cons.IH[OF sorted p Cons.prems(3) this] run show ?thesis by auto
      qed
    qed
  qed
qed

lemma pick_loop_filter:
  "pick_loop (filter (\<lambda>c. model_of_name (fst c) \<noteq> None) xs) d = pick_loop xs d"
  by (induction xs arbitrary: d) (auto split: option.splits)

lemma sorted_by_mtime_desc_set: "set (sorted_by_mtime_desc cs) = set cs"
  by (simp add: sorted_by_mtime_desc_def)

lemma sorted_by_mtime_desc_sorted: "sorted_wrt (\<lambda>a b. snd a \<ge> snd b) (sorted_by_mtime_desc cs)"
proof -
  have "sorted (map snd (sort_key snd (rev cs)))" by simp
  then have "sorted_wrt (\<lambda>a b. snd a \<le> snd b) (sort_key snd (rev cs))"
    by (simp add: sorted_map)
  then show ?thesis
    by (simp add: sorted_by_mtime_desc_def sorted_wrt_rev)
qed

lemma sorted_by_mtime_desc_filter:
  "sorted_by_mtime_desc (filter P cs) = filter P (sorted_by_mtime_desc cs)"
proof -
  have "rev (sort_key snd (rev (filter P cs))) = rev (sort_key snd (filter P (rev cs)))"
    by (simp only: rev_filter)
  also have "\<dots> = rev (filter P (sort_key snd (rev cs)))"
    by (simp only: filter_sort)
  also have "\<dots> = filter P (rev (sort_key snd (rev cs)))"
    by (simp only: rev_filter)
  finally show ?thesis by (simp only: sorted_by_mtime_desc_def)
qed


lemma split_once_first:
  "\<not> contains sep (stem @ butlast sep) \<Longrightarrow> sep \<noteq> [] \<Longrightarrow>
   split_once sep (stem @ sep @ rest) = Some (stem, rest)"
proof (induction stem)
  case Nil
  then show ?case by (cases sep) auto
next
  case (Cons c stem)
  from Cons.prems(1) have np: "\<not> prefix sep ((c # stem) @ butlast sep)"
    and nc: "\<not> contains sep (stem @ butlast sep)" by auto
  have "\<not> prefix sep (c # stem @ sep @ rest)"
  proof
    assume "prefix sep (c # stem @ sep @ rest)"
    moreover have whole: "c # stem @ sep @ rest = ((c # stem) @ butlast sep) @ (last sep # rest)"
      using append_butlast_last_id[OF Cons.prems(2)] by (metis append.assoc append_Cons append_Nil)
    moreover have "prefix ((c # stem) @ butlast sep) (((c # stem) @ butlast sep) @ (last sep # rest))"
      by (rule prefixI) simp
    moreover have "length sep \<le> length ((c # stem) @ butlast sep)"
      using Cons.prems(2) by (cases sep) auto
    ultimately have "prefix sep ((c # stem) @ butlast sep)"
      by (metis prefix_length_prefix)
    with np show False by blast
  qed
  with Cons.IH[OF nc Cons.prems(2)] show ?case by simp
qed


lemma rsplit_dot_head_ext:
  assumes "46 \<notin> set ext"
  shows "rsplit_dot_head (model @ 46 # ext) = model"
proof -
  have "dropWhile (\<lambda>c. c \<noteq> 46) (rev ext @ 46 # rev model) = dropWhile (\<lambda>c. c \<noteq> 46) (46 # rev model)"
    using assms by (intro dropWhile_append2) auto
  then show ?thesis by (simp add: rsplit_dot_head_def)
qed

lemma model_of_name_convention:
  assumes "\<not> contains (ascii ''__'') (stem @ [95])"
  shows "model_of_name (stem @ ascii ''__'' @ model @ ascii ''.json'') = Some model"
proof -
  have sep: "butlast (ascii ''__'') = [95]" "ascii ''__'' \<noteq> []" by (simp_all add: ascii_def)
  from assms have "\<not> contains (ascii ''__'') (stem @ butlast (ascii ''__''))" by (simp add: sep(1))
  from split_once_first[OF this sep(2)]
  have "split_once (ascii ''__'') (stem @ ascii ''__'' @ (model @ ascii ''.json'')) =
          Some (stem, model @ ascii ''.json'')" .
  moreover have "rsplit_dot_head (model @ ascii ''.json'') = model"
    using rsplit_dot_head_ext[of "ascii ''json''" model] by (simp add: ascii_def)
  ultimately show ?thesis by (simp add: model_of_name_def)
qed

text \<open>
  C4. The selector returns at most one file per model name (the names parsed from the
  returned files are pairwise different); every returned file is one of the
  candidates and has a name that parses; for every candidate whose name parses, the
  file returned for its model is modified at least as late; the candidates whose names
  do not parse can be left out without changing the result; and a name
  \<open><stem>__<model>.json\<close>, where \<open>__\<close> does not occur earlier than the separator,
  parses to \<open><model>\<close>.
\<close>

theorem pick_latest_one_per_model:
  "distinct (map (\<lambda>r. model_of_name (fst r)) (pick_latest_result_jsons_for_stem globbed)) \<and>
   (\<forall>r \<in> set (pick_latest_result_jsons_for_stem globbed).
      r \<in> set globbed \<and> model_of_name (fst r) \<noteq> None) \<and>
   (\<forall>p \<in> set globbed. model_of_name (fst p) \<noteq> None \<longrightarrow>
      (\<exists>r \<in> set (pick_latest_result_jsons_for_stem globbed).
         model_of_name (fst r) = model_of_name (fst p) \<and> snd p \<le> snd r)) \<and>
   pick_latest_result_jsons_for_stem (filter (\<lambda>p. model_of_name (fst p) \<noteq> None) globbed) =
     pick_latest_result_jsons_for_stem globbed \<and>
   (\<forall>stem model. \<not> contains (ascii ''__'') (stem @ [95]) \<longrightarrow>
      model_of_name (stem @ ascii ''__'' @ model @ ascii ''.json'') = Some model)"
proof -
  let ?xs = "sorted_by_mtime_desc globbed"
  let ?d = "pick_loop ?xs []"
  have mem: "\<And>m r. (m, r) \<in> set ?d \<Longrightarrow> r \<in> set globbed \<and> model_of_name (fst r) = Some m"
    using pick_loop_mem[of _ _ ?xs "[]"] by (simp add: sorted_by_mtime_desc_set)
  have "map (\<lambda>r. model_of_name (fst r)) (map snd ?d) = map Some (map fst ?d)"
    using mem by auto
  moreover have "distinct (map Some (map fst ?d))"
    using pick_loop_distinct[of "[]" ?xs] by (simp only: distinct_map) (simp add: inj_on_def)
  ultimately have "distinct (map (\<lambda>r. model_of_name (fst r)) (map snd ?d))"
    by (simp only:)
  then have 1: "distinct (map (\<lambda>r. model_of_name (fst r)) (pick_latest_result_jsons_for_stem globbed))"
    by (simp add: pick_latest_result_jsons_for_stem_def)
  have 2: "\<forall>r \<in> set (pick_latest_result_jsons_for_stem globbed).
      r \<in> set globbed \<and> model_of_name (fst r) \<noteq> None"
    using mem by (auto simp: pick_latest_result_jsons_for_stem_def)
  have 3: "\<forall>p \<in> set globbed. model_of_name (fst p) \<noteq> None \<longrightarrow>
      (\<exists>r \<in> set (pick_latest_result_jsons_for_stem globbed).
         model_of_name (fst r) = model_of_name (fst p) \<and> snd p \<le> snd r)"
  proof (intro ballI impI)
    fix p assume p: "p \<in> set globbed" "model_of_name (fst p) \<noteq> None"
    then obtain m where m: "model_of_name (fst p) = Some m" by blast
    from p(1) have "p \<in> set ?xs" by (simp add: sorted_by_mtime_desc_set)
    from pick_loop_latest[OF sorted_by_mtime_desc_sorted this m, of "[]"]
    obtain r where r: "(m, r) \<in> set ?d" "snd p \<le> snd r" by auto
    from mem[OF r(1)] m have "model_of_name (fst r) = model_of_name (fst p)" by simp
    moreover from r(1) have "r \<in> set (pick_latest_result_jsons_for_stem globbed)"
      by (force simp: pick_latest_result_jsons_for_stem_def)
    ultimately show "\<exists>r \<in> set (pick_latest_result_jsons_for_stem globbed).
         model_of_name (fst r) = model_of_name (fst p) \<and> snd p \<le> snd r"
      using r(2) by blast
  qed
  have 4: "pick_latest_result_jsons_for_stem (filter (\<lambda>p. model_of_name (fst p) \<noteq> None) globbed) =
     pick_latest_result_jsons_for_stem globbed"
    by (simp only: pick_latest_result_jsons_for_stem_def sorted_by_mtime_desc_filter pick_loop_filter)
  have 5: "\<forall>stem model. \<not> contains (ascii ''__'') (stem @ [95]) \<longrightarrow>
      model_of_name (stem @ ascii ''__'' @ model @ ascii ''.json'') = Some model"
    using model_of_name_convention by blast
  from 1 2 3 4 5 show ?thesis by blast
qed

theorem pick_latest_one_per_model_witness:
  "(ascii ''se24g2__gpt-5.json'', 10) \<in>
     set [(ascii ''se24g2__gpt-5.json'', 10), (ascii ''se24g2__gpt-4.1.json'', 15),
          (ascii ''se24g2__gpt-5.json'', 20), (ascii ''notes.json'', 30)] \<and>
   model_of_name (ascii ''se24g2__gpt-5.json'') \<noteq> None \<and>
   (\<exists>r \<in> set (pick_latest_result_jsons_for_stem
        [(ascii ''se24g2__gpt-5.json'', 10), (ascii ''se24g2__gpt-4.1.json'', 15),
         (ascii ''se24g2__gpt-5.json'', 20), (ascii ''notes.json'', 30)]).
      model_of_name (fst r) = model_of_name (ascii ''se24g2__gpt-5.json'') \<and> 10 \<le> snd r) \<and>
   pick_latest_result_jsons_for_stem
     [(ascii ''se24g2__gpt-5.json'', 10), (ascii ''se24g2__gpt-4.1.json'', 15),
      (ascii ''se24g2__gpt-5.json'', 20), (ascii ''notes.json'', 30)] =
     [(ascii ''se24g2__gpt-5.json'', 20), (ascii ''se24g2__gpt-4.1.json'', 15)]"
proof -
  let ?p = "(ascii ''se24g2__gpt-5.json'', 10 :: rat)"
  let ?G = "[?p, (ascii ''se24g2__gpt-4.1.json'', 15),
             (ascii ''se24g2__gpt-5.json'', 20), (ascii ''notes.json'', 30)]"
  have h1: "?p \<in> set ?G" by simp
  have h2: "model_of_name (fst ?p) \<noteq> None"
    by (simp add: model_of_name_def ascii_def)
  from pick_latest_one_per_model[of ?G] h1 h2
  have "\<exists>r \<in> set (pick_latest_result_jsons_for_stem ?G).
      model_of_name (fst r) = model_of_name (fst ?p) \<and> snd ?p \<le> snd r"
    by blast
  moreover have "pick_latest_result_jsons_for_stem ?G =
     [(ascii ''se24g2__gpt-5.json'', 20), (ascii ''se24g2__gpt-4.1.json'', 15)]"
    by (simp add: pick_latest_result_jsons_for_stem_def sorted_by_mtime_desc_def
        model_of_name_def rsplit_dot_head_def ascii_def)
  ultimately show ?thesis using h1 h2 by simp
qed

section \<open>The assembler: what a record contributes\<close>

lemma process_items_eq:
  "process_items repo_rel disk_lines items acc =
     acc @ map (comment_of repo_rel disk_lines) (filter survives items)"
  by (induction items arbitrary: acc) (simp_all add: survives_def comment_of_def Let_def)

lemma resolved_or_1_pos: "1 \<le> resolved_or_1 disk_lines excerpt"
  by (simp add: resolved_or_1_def split: option.splits)

lemma process_record_Inr:
  "process_record repo_rel disk_lines (jp, Inr d) st =
     st\<lparr>overall_chunks := overall_chunks st @
            (if overall_of d \<noteq> [] then [ascii ''**'' @ repo_rel @ ascii ''**'' @ [10] @ overall_of d] else []),
        inline_comments := inline_comments st @
            map (comment_of repo_rel disk_lines) (filter survives (items_of d))\<rparr>"
  by (simp add: process_record_def Let_def process_items_eq)

lemma process_record_fields:
  "overall_chunks (process_record repo_rel disk_lines jp st) =
     overall_chunks st @ record_chunks repo_rel jp"
  "inline_comments (process_record repo_rel disk_lines jp st) =
     inline_comments st @ record_comments repo_rel disk_lines jp"
  by (cases jp; cases "snd jp";
      simp add: process_record_def Let_def process_items_eq record_chunks_def record_comments_def)+

lemma process_file_fields:
  "overall_chunks (process_file (repo_rel, disk_lines, related) st) =
     overall_chunks st @ concat (map (record_chunks repo_rel) related)"
  "inline_comments (process_file (repo_rel, disk_lines, related) st) =
     inline_comments st @ concat (map (record_comments repo_rel disk_lines) related)"
proof -
  have "overall_chunks (foldl (\<lambda>s jp. process_record repo_rel disk_lines jp s) st related) =
          overall_chunks st @ concat (map (record_chunks repo_rel) related) \<and>
        inline_comments (foldl (\<lambda>s jp. process_record repo_rel disk_lines jp s) st related) =
          inline_comments st @ concat (map (record_comments repo_rel disk_lines) related)"
    by (induction related arbitrary: st) (simp_all add: process_record_fields)
  then show
    "overall_chunks (process_file (repo_rel, disk_lines, related) st) =
       overall_chunks st @ concat (map (record_chunks repo_rel) related)"
    "inline_comments (process_file (repo_rel, disk_lines, related) st) =
       inline_comments st @ concat (map (record_comments repo_rel disk_lines) related)"
    by (simp_all add: process_file_def)
qed

lemma foldl_process_file:
  "overall_chunks (foldl (\<lambda>s f. process_file f s) st srs_files) =
     overall_chunks st @ concat (map file_chunks srs_files) \<and>
   inline_comments (foldl (\<lambda>s f. process_file f s) st srs_files) =
     inline_comments st @ concat (map file_comments srs_files)"
proof (induction srs_files arbitrary: st)
  case Nil
  then show ?case by simp
next
  case (Cons f fs)
  obtain repo_rel disk_lines related where f: "f = (repo_rel, disk_lines, related)"
    by (cases f) auto
  show ?case
    by (simp add: Cons.IH f process_file_fields file_chunks_def file_comments_def)
qed

lemma assemble_fields:
  "overall_chunks (assemble srs_files entries) = concat (map file_chunks srs_files)"
  "inline_comments (assemble srs_files entries) = concat (map file_comments srs_files)"
  by (simp_all add: assemble_def foldl_process_file)

section \<open>The assembler: line numbers, caps and discarded items\<close>

lemma resolved_or_1_eq:
  "resolved_or_1 disk_lines excerpt =
     (case find_lineno_by_excerpt disk_lines excerpt of Some k \<Rightarrow> int k | None \<Rightarrow> 1)"
  using find_lineno_range[of disk_lines excerpt 0]
  by (auto simp: resolved_or_1_def split: option.splits)

text \<open>
  C3, as amended. The loop gives one comment for every item that survives the filter,
  in order, so no surviving item is dropped. The line number of the comment is the
  explicit \<open>lineno\<close> when that is present and not zero, whatever its sign; otherwise
  it is the resolver's result for the item's excerpt, and 1 when the resolver returns
  \<open>None\<close>. It is at least 1 whenever \<open>lineno\<close> is absent, zero or positive.
\<close>

theorem inline_comment_line_number:
  "process_items repo_rel disk_lines items acc =
     acc @ map (comment_of repo_rel disk_lines) (filter survives items) \<and>
   (\<forall>it. ic_line (comment_of repo_rel disk_lines it) =
      (case item_lineno it of
         Some n \<Rightarrow>
           if n \<noteq> 0 then n
           else (case find_lineno_by_excerpt disk_lines (excerpt_of it) of
                   Some k \<Rightarrow> int k | None \<Rightarrow> 1)
       | None \<Rightarrow>
           (case find_lineno_by_excerpt disk_lines (excerpt_of it) of
              Some k \<Rightarrow> int k | None \<Rightarrow> 1))) \<and>
   (\<forall>it. item_lineno it = None \<or> item_lineno it = Some 0 \<or> (\<exists>n > 0. item_lineno it = Some n) \<longrightarrow>
      1 \<le> ic_line (comment_of repo_rel disk_lines it)) \<and>
   length (process_items repo_rel disk_lines items acc) =
     length acc + length (filter survives items)"
proof -
  have 1: "process_items repo_rel disk_lines items acc =
     acc @ map (comment_of repo_rel disk_lines) (filter survives items)"
    by (rule process_items_eq)
  have 2: "\<forall>it. ic_line (comment_of repo_rel disk_lines it) =
      (case item_lineno it of
         Some n \<Rightarrow>
           if n \<noteq> 0 then n
           else (case find_lineno_by_excerpt disk_lines (excerpt_of it) of
                   Some k \<Rightarrow> int k | None \<Rightarrow> 1)
       | None \<Rightarrow>
           (case find_lineno_by_excerpt disk_lines (excerpt_of it) of
              Some k \<Rightarrow> int k | None \<Rightarrow> 1))"
    by (simp add: comment_of_def lineno_of_def resolved_or_1_eq split: option.splits)
  have 3: "\<forall>it. item_lineno it = None \<or> item_lineno it = Some 0 \<or> (\<exists>n > 0. item_lineno it = Some n) \<longrightarrow>
      1 \<le> ic_line (comment_of repo_rel disk_lines it)"
    using resolved_or_1_pos by (auto simp: comment_of_def lineno_of_def)
  have 4: "length (process_items repo_rel disk_lines items acc) =
     length acc + length (filter survives items)"
    by (simp add: process_items_eq)
  from 1 2 3 4 show ?thesis by blast
qed


lemmas item_simps =
  survives_def comment_of_def excerpt_of_def detail_of_def axes_of_def or_str_def or_axes_def
  lineno_of_def resolved_or_1_def

text \<open>
  C3 as stated fails for an explicit negative \<open>lineno\<close>: it is truthy, nothing
  checks it, and the comment carries it.
\<close>

theorem explicit_lineno_negative_counterexample:
  "excerpt_of \<lparr>item_line = Some (ascii ''x''), item_comment = Some (ascii ''y''),
                item_detail = None, item_axis = None, item_axes = None,
                item_lineno = Some (- 5)\<rparr> \<noteq> [] \<and>
   detail_of \<lparr>item_line = Some (ascii ''x''), item_comment = Some (ascii ''y''),
                item_detail = None, item_axis = None, item_axes = None,
                item_lineno = Some (- 5)\<rparr> \<noteq> [] \<and>
   map ic_line (process_items (ascii ''docs/SRS/a.md'') [ascii ''x'']
     [\<lparr>item_line = Some (ascii ''x''), item_comment = Some (ascii ''y''),
       item_detail = None, item_axis = None, item_axes = None,
       item_lineno = Some (- 5)\<rparr>] []) = [- 5]"
  by (simp add: item_simps eval_simps)

theorem inline_comment_line_number_witness:
  "item_lineno \<lparr>item_line = Some (ascii ''zzz''), item_comment = Some (ascii ''y''),
                 item_detail = None, item_axis = None, item_axes = None,
                 item_lineno = None\<rparr> = None \<and>
   1 \<le> ic_line (comment_of (ascii ''docs/SRS/a.md'') [ascii ''x'']
          \<lparr>item_line = Some (ascii ''zzz''), item_comment = Some (ascii ''y''),
            item_detail = None, item_axis = None, item_axes = None,
            item_lineno = None\<rparr>) \<and>
   map ic_line (process_items (ascii ''docs/SRS/a.md'') [ascii ''x'']
     [\<lparr>item_line = Some (ascii ''zzz''), item_comment = Some (ascii ''y''),
       item_detail = None, item_axis = None, item_axes = None,
       item_lineno = None\<rparr>] []) = [1]"
proof -
  let ?it = "\<lparr>item_line = Some (ascii ''zzz''), item_comment = Some (ascii ''y''),
       item_detail = None, item_axis = None, item_axes = None,
       item_lineno = None :: int option\<rparr>"
  have h: "item_lineno ?it = None" by simp
  have s: "survives ?it" by (simp add: item_simps eval_simps)
  have r: "find_lineno_by_excerpt [ascii ''x''] (excerpt_of ?it) = None"
    by (simp add: item_simps eval_simps)
  note t = inline_comment_line_number[of "ascii ''docs/SRS/a.md''" "[ascii ''x'']" "[?it]" "[]"]
  from t h have pos: "1 \<le> ic_line (comment_of (ascii ''docs/SRS/a.md'') [ascii ''x''] ?it)"
    by blast
  from t have line: "ic_line (comment_of (ascii ''docs/SRS/a.md'') [ascii ''x''] ?it) =
      (case find_lineno_by_excerpt [ascii ''x''] (excerpt_of ?it) of Some k \<Rightarrow> int k | None \<Rightarrow> 1)"
    by (simp only: h option.case)
  from t have "process_items (ascii ''docs/SRS/a.md'') [ascii ''x''] [?it] [] =
      [] @ map (comment_of (ascii ''docs/SRS/a.md'') [ascii ''x'']) (filter survives [?it])"
    by blast
  with s line r have "map ic_line (process_items (ascii ''docs/SRS/a.md'') [ascii ''x''] [?it] []) = [1]"
    by simp
  with h pos show ?thesis by blast
qed

text \<open>
  C6. The review body is the chunks joined by two newlines, cut to its first 4000
  characters. The payload is made of the first 80 inline comments, one entry for each
  in their order: entry \<open>i\<close> has the path, the line and the body of comment \<open>i\<close> and
  the side \<open>RIGHT\<close>, so more than 80 comments give exactly 80 entries, those of the
  first 80 comments. The chunks and the comments themselves are produced document by
  document, within a document record by record, and within a record item by item.
\<close>

theorem batch_finalization_caps:
  "review_body_of chunks = take 4000 (join [10, 10] chunks) \<and>
   review_body_of [] = [] \<and>
   (\<forall>c. review_body_of [c] = take 4000 c) \<and>
   (\<forall>c d cs. review_body_of (c # d # cs) = take 4000 (c @ [10, 10] @ join [10, 10] (d # cs))) \<and>
   length (review_body_of chunks) \<le> 4000 \<and>
   review_comments_payload_of comments = map payload_entry (take 80 comments) \<and>
   length (review_comments_payload_of comments) = min 80 (length comments) \<and>
   (80 < length comments \<longrightarrow> length (review_comments_payload_of comments) = 80) \<and>
   (\<forall>i < length (review_comments_payload_of comments).
      review_comments_payload_of comments ! i = payload_entry (comments ! i) \<and>
      review_comments_payload_of comments ! i =
        \<lparr>rc_path = ic_path (comments ! i), rc_line = ic_line (comments ! i),
         rc_side = ascii ''RIGHT'', rc_body = ic_body (comments ! i)\<rparr>) \<and>
   overall_chunks (assemble srs_files entries) = concat (map file_chunks srs_files) \<and>
   inline_comments (assemble srs_files entries) = concat (map file_comments srs_files)"
proof -
  have body: "review_body_of chunks = take 4000 (join [10, 10] chunks)"
    by (simp add: review_body_of_def MAX_OVERALL_LEN_def)
  have b0: "review_body_of [] = []"
    by (simp add: review_body_of_def)
  have b1: "\<forall>c. review_body_of [c] = take 4000 c"
    by (simp add: review_body_of_def MAX_OVERALL_LEN_def)
  have b2: "\<forall>c d cs. review_body_of (c # d # cs) = take 4000 (c @ [10, 10] @ join [10, 10] (d # cs))"
    by (simp add: review_body_of_def MAX_OVERALL_LEN_def)
  have len: "length (review_body_of chunks) \<le> 4000"
    by (simp add: body)
  have pl: "review_comments_payload_of comments = map payload_entry (take 80 comments)"
    by (simp add: review_comments_payload_of_def MAX_INLINE_def)
  have pn: "length (review_comments_payload_of comments) = min 80 (length comments)"
    by (simp add: pl min.commute)
  have p80: "80 < length comments \<longrightarrow> length (review_comments_payload_of comments) = 80"
    by (simp add: pl)
  have nth: "\<forall>i < length (review_comments_payload_of comments).
      review_comments_payload_of comments ! i = payload_entry (comments ! i) \<and>
      review_comments_payload_of comments ! i =
        \<lparr>rc_path = ic_path (comments ! i), rc_line = ic_line (comments ! i),
         rc_side = ascii ''RIGHT'', rc_body = ic_body (comments ! i)\<rparr>"
    by (simp add: pl payload_entry_def)
  from body b0 b1 b2 len pl pn p80 nth assemble_fields[of srs_files entries]
  show ?thesis by blast
qed

text \<open>
  C7. An item whose excerpt (after trimming) or whose detail is empty gives no
  comment: the loop over a record's items ends in the same state as without the
  item, the other items give their comments as before, and two records whose item
  lists differ in that item only leave the same batch.
\<close>

theorem empty_item_discarded:
  assumes "excerpt_of it = [] \<or> detail_of it = []"
  shows "process_items repo_rel disk_lines (xs @ it # ys) acc =
           process_items repo_rel disk_lines (xs @ ys) acc \<and>
         process_items repo_rel disk_lines (xs @ it # ys) acc =
           acc @ map (comment_of repo_rel disk_lines) (filter survives (xs @ ys)) \<and>
         (\<forall>d d' jp st. items_of d = xs @ it # ys \<and> items_of d' = xs @ ys \<and>
              overall_of d' = overall_of d \<longrightarrow>
            process_record repo_rel disk_lines (jp, Inr d) st =
              process_record repo_rel disk_lines (jp, Inr d') st)"
proof -
  from assms have "\<not> survives it" by (auto simp: survives_def)
  then have f: "filter survives (xs @ it # ys) = filter survives (xs @ ys)" by simp
  then show ?thesis by (simp add: process_items_eq process_record_Inr)
qed


theorem batch_finalization_caps_witness:
  "80 < length (map (\<lambda>k. \<lparr>ic_path = ascii ''a.md'', ic_line = int k, ic_body = ascii ''b''\<rparr>) [1..<82]) \<and>
   map rc_line (review_comments_payload_of
     (map (\<lambda>k. \<lparr>ic_path = ascii ''a.md'', ic_line = int k, ic_body = ascii ''b''\<rparr>) [1..<82])) =
     map int [1..<81] \<and>
   length (review_body_of (replicate 3 (replicate 2000 97))) = 4000 \<and>
   review_body_of [ascii ''A'', ascii ''B''] = ascii ''A'' @ [10, 10] @ ascii ''B'' \<and>
   map (\<lambda>c. (ic_path c, ic_line c))
     (inline_comments (assemble
        [(ascii ''a.md'', [],
          [(ascii ''r1.json'',
            Inr \<lparr>data_overall = None, data_summary = None,
                 data_review_items = Some
                   [\<lparr>item_line = Some (ascii ''x''), item_comment = Some (ascii ''c1''),
                     item_detail = None, item_axis = None, item_axes = None,
                     item_lineno = Some 1\<rparr>,
                    \<lparr>item_line = Some (ascii ''x''), item_comment = Some (ascii ''c2''),
                     item_detail = None, item_axis = None, item_axes = None,
                     item_lineno = Some 2\<rparr>],
                 data_comments = None\<rparr>),
           (ascii ''r2.json'',
            Inr \<lparr>data_overall = None, data_summary = None,
                 data_review_items = None,
                 data_comments = Some
                   [\<lparr>item_line = Some (ascii ''x''), item_comment = Some (ascii ''c3''),
                     item_detail = None, item_axis = None, item_axes = None,
                     item_lineno = Some 3\<rparr>]\<rparr>)]),
         (ascii ''b.md'', [],
          [(ascii ''r3.json'',
            Inr \<lparr>data_overall = None, data_summary = None,
                 data_review_items = Some
                   [\<lparr>item_line = Some (ascii ''x''), item_comment = Some (ascii ''c4''),
                     item_detail = None, item_axis = None, item_axes = None,
                     item_lineno = Some 4\<rparr>],
                 data_comments = None\<rparr>)])] [])) =
     [(ascii ''a.md'', 1), (ascii ''a.md'', 2), (ascii ''a.md'', 3), (ascii ''b.md'', 4)]"
proof -
  let ?cs = "map (\<lambda>k. \<lparr>ic_path = ascii ''a.md'', ic_line = int k, ic_body = ascii ''b''\<rparr>) [1..<82]"
  let ?chunks = "replicate 3 (replicate 2000 (97::nat))"
  let ?files = "[(ascii ''a.md'', [],
          [(ascii ''r1.json'',
            Inr \<lparr>data_overall = None, data_summary = None,
                 data_review_items = Some
                   [\<lparr>item_line = Some (ascii ''x''), item_comment = Some (ascii ''c1''),
                     item_detail = None, item_axis = None, item_axes = None,
                     item_lineno = Some 1\<rparr>,
                    \<lparr>item_line = Some (ascii ''x''), item_comment = Some (ascii ''c2''),
                     item_detail = None, item_axis = None, item_axes = None,
                     item_lineno = Some 2\<rparr>],
                 data_comments = None\<rparr>),
           (ascii ''r2.json'',
            Inr \<lparr>data_overall = None, data_summary = None,
                 data_review_items = None,
                 data_comments = Some
                   [\<lparr>item_line = Some (ascii ''x''), item_comment = Some (ascii ''c3''),
                     item_detail = None, item_axis = None, item_axes = None,
                     item_lineno = Some 3\<rparr>]\<rparr>)]),
         (ascii ''b.md'', [],
          [(ascii ''r3.json'',
            Inr \<lparr>data_overall = None, data_summary = None,
                 data_review_items = Some
                   [\<lparr>item_line = Some (ascii ''x''), item_comment = Some (ascii ''c4''),
                     item_detail = None, item_axis = None, item_axes = None,
                     item_lineno = Some 4\<rparr>],
                 data_comments = None\<rparr>)])] :: srs_file list"
  have h: "80 < length ?cs" by simp
  note t = batch_finalization_caps[of ?chunks ?cs ?files "[]"]
  from t h have n: "length (review_comments_payload_of ?cs) = 80" by blast
  from t have nth: "\<forall>i < length (review_comments_payload_of ?cs).
      review_comments_payload_of ?cs ! i =
        \<lparr>rc_path = ic_path (?cs ! i), rc_line = ic_line (?cs ! i),
         rc_side = ascii ''RIGHT'', rc_body = ic_body (?cs ! i)\<rparr>"
    by blast
  have lines: "map rc_line (review_comments_payload_of ?cs) = map int [1..<81]"
  proof (rule nth_equalityI)
    show "length (map rc_line (review_comments_payload_of ?cs)) = length (map int [1..<81])"
      using n by simp
  next
    fix i assume "i < length (map rc_line (review_comments_payload_of ?cs))"
    with n have i: "i < 80" by simp
    with nth n have "rc_line (review_comments_payload_of ?cs ! i) = ic_line (?cs ! i)" by simp
    also from i have "\<dots> = int (1 + i)" by simp
    finally show "map rc_line (review_comments_payload_of ?cs) ! i = map int [1..<81] ! i"
      using i n by simp
  qed
  from t have "review_body_of ?chunks = take 4000 (join [10, 10] ?chunks)" by blast
  then have b: "length (review_body_of ?chunks) = 4000"
    by (simp add: numeral_3_eq_3)
  from t have "review_body_of (ascii ''A'' # ascii ''B'' # []) =
      take 4000 (ascii ''A'' @ [10, 10] @ join [10, 10] (ascii ''B'' # []))"
    by blast
  then have ab: "review_body_of [ascii ''A'', ascii ''B''] = ascii ''A'' @ [10, 10] @ ascii ''B''"
    by (simp add: ascii_def)
  from t have "inline_comments (assemble ?files []) = concat (map file_comments ?files)"
    by blast
  then have order: "map (\<lambda>c. (ic_path c, ic_line c)) (inline_comments (assemble ?files [])) =
      [(ascii ''a.md'', 1), (ascii ''a.md'', 2), (ascii ''a.md'', 3), (ascii ''b.md'', 4)]"
    by (simp add: file_comments_def record_comments_def items_of_def or_items_def item_simps
        eval_simps)
  from h lines b ab order show ?thesis by blast
qed

theorem empty_item_discarded_witness:
  "excerpt_of \<lparr>item_line = Some (ascii ''  ''), item_comment = Some (ascii ''y''),
                item_detail = None, item_axis = None, item_axes = None,
                item_lineno = Some 3\<rparr> = [] \<and>
   process_items (ascii ''docs/SRS/a.md'') [ascii ''x'']
     ([\<lparr>item_line = Some (ascii ''x''), item_comment = Some (ascii ''first''),
        item_detail = None, item_axis = None, item_axes = None, item_lineno = None\<rparr>] @
      \<lparr>item_line = Some (ascii ''  ''), item_comment = Some (ascii ''y''),
        item_detail = None, item_axis = None, item_axes = None, item_lineno = Some 3\<rparr> #
      [\<lparr>item_line = Some (ascii ''x''), item_comment = None,
        item_detail = Some (ascii ''second''), item_axis = None, item_axes = None,
        item_lineno = Some 7\<rparr>]) [] =
   process_items (ascii ''docs/SRS/a.md'') [ascii ''x'']
     ([\<lparr>item_line = Some (ascii ''x''), item_comment = Some (ascii ''first''),
        item_detail = None, item_axis = None, item_axes = None, item_lineno = None\<rparr>] @
      [\<lparr>item_line = Some (ascii ''x''), item_comment = None,
        item_detail = Some (ascii ''second''), item_axis = None, item_axes = None,
        item_lineno = Some 7\<rparr>]) []"
proof -
  let ?it = "\<lparr>item_line = Some (ascii ''  ''), item_comment = Some (ascii ''y''),
        item_detail = None, item_axis = None, item_axes = None, item_lineno = Some (3::int)\<rparr>"
  have e: "excerpt_of ?it = []" by (simp add: item_simps eval_simps)
  then have h: "excerpt_of ?it = [] \<or> detail_of ?it = []" by blast
  from empty_item_discarded[OF h] e show ?thesis by blast
qed

section \<open>The orchestrator: one notice, and a run that ends\<close>

lemma contains_refl: "contains s s"
  by (cases s) auto

lemma contains_append_left: "contains x t \<Longrightarrow> contains x (s @ t)"
  by (induction s) auto

lemma contains_append_right: "contains x s \<Longrightarrow> contains x (s @ t)"
proof -
  assume "contains x s"
  then obtain ps ss where "s = ps @ x @ ss" unfolding contains_iff by blast
  then have "s @ t = ps @ x @ (ss @ t)" by simp
  then show ?thesis unfolding contains_iff by blast
qed

lemma contains_join_mem: "x \<in> set xs \<Longrightarrow> contains x (join sep xs)"
proof (induction sep xs rule: join.induct)
  case (1 sep)
  then show ?case by simp
next
  case (2 sep y)
  then show ?case by (simp add: contains_refl)
next
  case (3 sep y z zs)
  show ?case
  proof (cases "x = y")
    case True
    then show ?thesis using contains_append_right[OF contains_refl, of y] by simp
  next
    case False
    with "3.prems" have "x \<in> set (z # zs)" by simp
    then have "contains x (join sep (z # zs))" by (rule "3.IH")
    then have "contains x (y @ sep @ join sep (z # zs))"
      by (intro contains_append_left)
    then show ?thesis by simp
  qed
qed

lemma gh_post_loop_api_calls:
  "api_calls (snd (gh_post_loop net url pl max_tries tries w)) = api_calls w"
proof (induction tries arbitrary: w)
  case Nil
  then show ?case by (simp add: return_io_def)
next
  case (Cons i tries)
  show ?case
    by (cases "outcome_of url (net (length (requests w)))")
       (simp_all add: try_except_def post_once_def Let_def raise_io_def bind_io_def warn_io_def
          Cons.IH)
qed

lemma gh_post_api_calls: "api_calls (snd (gh_post net url pl w)) = api_calls w"
  by (simp only: gh_post_def gh_post_loop_api_calls)

lemma post_pull_review_api_calls:
  "api_calls (snd (post_pull_review net repo pr_number review_body cs w)) =
     api_calls w @ [PostPullReview review_body cs]"
  by (simp add: post_pull_review_def bind_io_def called_def gh_post_api_calls)

lemma post_issue_comment_api_calls:
  "api_calls (snd (post_issue_comment net repo pr_number body w)) =
     api_calls w @ [PostIssueComment body]"
  by (simp add: post_issue_comment_def bind_io_def called_def gh_post_api_calls)

lemma ring_append_nonempty: "ring_append entry entries \<noteq> []"
  by (simp add: ring_append_def)

lemma tail_lines_of_nonempty: "entries \<noteq> [] \<Longrightarrow> tail_lines_of entries \<noteq> []"
  by (cases entries) (auto simp: tail_lines_of_def)

lemma submit_failed:
  assumes "post_pull_review net repo pr_number review_body payload w = (Inl e, w1)"
  shows "submit net env repo pr_number review_body payload w =
           notify_failure net env repo pr_number review_body payload e w1"
  using assms by (simp add: submit_def try_except_def bind_io_def)

lemma notify_failure_unfold:
  "notify_failure net env repo pr_number review_body payload e w1 =
     (let w2 = w1\<lparr>ring := warn (ascii ''post_pull_review failed: '' @ e) (ring w1)\<rparr>;
          notice = join [10] (failure_notice_lines e review_body payload (run_url_of env repo) (ring w2))
      in case post_issue_comment net repo pr_number notice w2 of
           (Inl e2, w3) \<Rightarrow> (Inr (), w3\<lparr>ring := warn (ascii ''failed to post failure notice: '' @ e2) (ring w3)\<rparr>)
         | (Inr x, w3) \<Rightarrow> (Inr (), w3\<lparr>ring := info (ascii ''Posted failure notice comment instead of inline fallback.'') (ring w3)\<rparr>))"
  by (simp add: notify_failure_def bind_io_def warn_io_def info_io_def try_except_def Let_def
      split: prod.splits sum.splits)

lemma submit_returns: "fst (submit net env repo pr_number review_body payload w) = Inr ()"
proof (cases "post_pull_review net repo pr_number review_body payload w")
  case (Pair r w1)
  show ?thesis
  proof (cases r)
    case (Inl e)
    with Pair have "submit net env repo pr_number review_body payload w =
           notify_failure net env repo pr_number review_body payload e w1"
      by (simp add: submit_failed)
    then show ?thesis
      by (simp add: notify_failure_unfold Let_def split: prod.splits sum.splits)
  next
    case (Inr x)
    with Pair show ?thesis
      by (simp add: submit_def try_except_def bind_io_def info_io_def)
  qed
qed


lemma failure_notice_lines_mem:
  "e \<in> set (failure_notice_lines e review_body payload run_url entries)"
  "notice_overall_label @ (if review_body \<noteq> [] then notice_yes else notice_no)
     \<in> set (failure_notice_lines e review_body payload run_url entries)"
  "notice_inline_label @ str_nat (length payload)
     \<in> set (failure_notice_lines e review_body payload run_url entries)"
  "run_url = Some u \<Longrightarrow>
     notice_log_link_label @ u \<in> set (failure_notice_lines e review_body payload run_url entries)"
  "tail_lines_of entries \<noteq> [] \<Longrightarrow>
     sanitize_fence (join [10] (tail_lines_of entries))
       \<in> set (failure_notice_lines e review_body payload run_url entries)"
  by (simp_all add: failure_notice_lines_def Let_def split: option.splits)

lemma failure_notice_lines_length:
  "tail_lines_of entries \<noteq> [] \<Longrightarrow>
   length (failure_notice_lines e review_body payload run_url entries) =
     (case run_url of Some u \<Rightarrow> 17 | None \<Rightarrow> 15)"
  by (simp add: failure_notice_lines_def Let_def split: option.splits)

lemma run_url_of_None:
  "run_url_of env repo = None \<longleftrightarrow>
     env (ascii ''GITHUB_RUN_ID'') = None \<or> env (ascii ''GITHUB_RUN_ID'') = Some []"
  by (simp add: run_url_of_def Let_def split: option.splits)


lemma gh_post_unfold:
  "gh_post net url pl w =
     (case outcome_of url (net (length (requests w))) of
        Inr u \<Rightarrow> (Inr (), w\<lparr>requests := requests w @ [(url, pl)]\<rparr>)
      | Inl e1 \<Rightarrow>
          (case outcome_of url (net (length (requests w) + 1)) of
             Inr u \<Rightarrow> (Inr (), w\<lparr>requests := requests w @ [(url, pl), (url, pl)],
                                 ring := warn (retry_msg 1 e1) (ring w)\<rparr>)
           | Inl e2 \<Rightarrow>
               (case outcome_of url (net (length (requests w) + 2)) of
                  Inr u \<Rightarrow> (Inr (), w\<lparr>requests := requests w @ [(url, pl), (url, pl), (url, pl)],
                                      ring := warn (retry_msg 2 e2) (warn (retry_msg 1 e1) (ring w))\<rparr>)
                | Inl e3 \<Rightarrow> (Inl e3, w\<lparr>requests := requests w @ [(url, pl), (url, pl), (url, pl)],
                                      ring := warn (retry_msg 2 e2) (warn (retry_msg 1 e1) (ring w))\<rparr>))))"
  by (simp add: gh_post_def upt_conv_Cons try_except_def post_once_def raise_io_def bind_io_def
      warn_io_def return_io_def retry_msg_def numeral_2_eq_2 split: sum.splits)

lemma gh_post_requests:
  "\<exists>n. 1 \<le> n \<and> n \<le> 3 \<and>
       requests (snd (gh_post net url pl w)) = requests w @ replicate n (url, pl) \<and>
       (\<forall>k < n - 1. outcome_of url (net (length (requests w) + k)) \<noteq> Inr ()) \<and>
       (fst (gh_post net url pl w) = Inr () \<longleftrightarrow>
          outcome_of url (net (length (requests w) + (n - 1))) = Inr ()) \<and>
       (fst (gh_post net url pl w) \<noteq> Inr () \<longrightarrow> n = 3)"
proof (cases "outcome_of url (net (length (requests w)))")
  case (Inr u)
  then show ?thesis by (intro exI[of _ 1]) (simp add: gh_post_unfold)
next
  case e1: (Inl e1)
  show ?thesis
  proof (cases "outcome_of url (net (length (requests w) + 1))")
    case (Inr u)
    with e1 show ?thesis by (intro exI[of _ 2]) (simp add: gh_post_unfold numeral_2_eq_2)
  next
    case e2: (Inl e2)
    have k: "\<forall>k < 2. outcome_of url (net (length (requests w) + k)) \<noteq> Inr ()"
      using e1 e2 by (auto simp: less_Suc_eq numeral_2_eq_2)
    show ?thesis
    proof (cases "outcome_of url (net (length (requests w) + 2))")
      case (Inr u)
      with e1 e2 k show ?thesis
        by (intro exI[of _ 3]) (simp add: gh_post_unfold numeral_3_eq_3)
    next
      case (Inl e3)
      with e1 e2 k show ?thesis
        by (intro exI[of _ 3]) (simp add: gh_post_unfold numeral_3_eq_3)
    qed
  qed
qed

lemma gh_post_failed_requests:
  assumes "gh_post net url pl w = (Inl e, w1)"
  shows "requests w1 = requests w @ replicate 3 (url, pl)"
  using assms by (simp add: gh_post_unfold numeral_3_eq_3 split: sum.splits) auto

lemma last_ring_append: "last (ring_append entry entries) = entry"
  by (simp add: ring_append_def)


text \<open>
  C8. When \<open>post_pull_review\<close> raises \<open>e\<close>, \<open>submit\<close> returns, and the calls it has
  made are the one review and one \<open>post_issue_comment\<close> with the notice: no second
  notice and no \<open>post_inline_comment\<close>, whatever the number of inline comments. On
  the network the failed review is three POSTs of the review, and all that follows is
  the notice: at least one and at most three POSTs of the same notice to the issue
  comments of the pull request, each one sent only after the one before has failed, so
  that GitHub accepts at most one. The notice begins with the title, the reason with
  the text of \<open>e\<close> in a fence, the line that says whether there was an overall text
  and the line with the number of inline comments of the payload. It has the link to
  the run when \<open>GITHUB_RUN_ID\<close> is set and not empty (else the two lines of the link
  are not there), and it has the last 120 entries of the log, joined by newlines and
  sanitized; the log is never empty at that point, its newest entry being the warning
  of this failure.
\<close>

theorem failed_submission_one_notice:
  assumes "post_pull_review net repo pr_number review_body payload w = (Inl e, w1)"
  shows "let ring2 = warn (ascii ''post_pull_review failed: '' @ e) (ring w1);
             notice_lines = failure_notice_lines e review_body payload (run_url_of env repo) ring2;
             notice = join [10] notice_lines;
             w' = snd (submit net env repo pr_number review_body payload w)
         in fst (submit net env repo pr_number review_body payload w) = Inr () \<and>
            api_calls w' =
              api_calls w @ [PostPullReview review_body payload, PostIssueComment notice] \<and>
            contains e notice \<and>
            contains (notice_overall_label @ (if review_body \<noteq> [] then notice_yes else notice_no))
              notice \<and>
            contains (notice_inline_label @ str_nat (length payload)) notice \<and>
            (case run_url_of env repo of
               Some u \<Rightarrow> contains (notice_log_link_label @ u) notice \<and> length notice_lines = 17
             | None \<Rightarrow> length notice_lines = 15) \<and>
            (run_url_of env repo = None \<longleftrightarrow>
               env (ascii ''GITHUB_RUN_ID'') = None \<or> env (ascii ''GITHUB_RUN_ID'') = Some []) \<and>
            tail_lines_of ring2 \<noteq> [] \<and>
            contains (sanitize_fence (join [10] (tail_lines_of ring2))) notice \<and>
            take 8 notice_lines =
              [notice_title, [], notice_reason, fence @ ascii ''text'', e, fence,
               notice_overall_label @ (if review_body \<noteq> [] then notice_yes else notice_no),
               notice_inline_label @ str_nat (length payload)] \<and>
            sanitize_fence (join [10] (tail_lines_of ring2)) \<in> set notice_lines \<and>
            sanitize_fence (join [10] (tail_lines_of ring2)) =
              replace [96, 96, 96] [96, 96, 8203, 96] (strip (join [10] (tail_lines_of ring2))) \<and>
            tail_lines_of ring2 = drop (length ring2 - 120) ring2 \<and>
            length (tail_lines_of ring2) \<le> 120 \<and>
            last (tail_lines_of ring2) = ascii ''[WARN] post_pull_review failed: '' @ e \<and>
            requests w1 = requests w @
              replicate 3 (reviews_url repo pr_number,
                           ReviewPayload review_body (ascii ''COMMENT'') payload) \<and>
            (\<exists>n. 1 \<le> n \<and> n \<le> 3 \<and>
               requests w' = requests w1 @
                 replicate n (issue_comments_url repo pr_number, CommentPayload notice) \<and>
               (\<forall>k < n - 1. outcome_of (issue_comments_url repo pr_number)
                                (net (length (requests w1) + k)) \<noteq> Inr ()) \<and>
               (n < 3 \<longrightarrow> outcome_of (issue_comments_url repo pr_number)
                                (net (length (requests w1) + (n - 1))) = Inr ()))"
proof -
  let ?ring2 = "warn (ascii ''post_pull_review failed: '' @ e) (ring w1)"
  let ?lines = "failure_notice_lines e review_body payload (run_url_of env repo) ?ring2"
  let ?notice = "join [10] ?lines"
  let ?w2 = "w1\<lparr>ring := ?ring2\<rparr>"
  let ?w' = "snd (submit net env repo pr_number review_body payload w)"
  have calls1: "api_calls w1 = api_calls w @ [PostPullReview review_body payload]"
    using post_pull_review_api_calls[of net repo pr_number review_body payload w] assms by simp
  have calls3: "api_calls (snd (post_issue_comment net repo pr_number ?notice ?w2)) =
      api_calls w @ [PostPullReview review_body payload, PostIssueComment ?notice]"
    by (simp add: post_issue_comment_api_calls calls1)
  have sub: "submit net env repo pr_number review_body payload w =
      notify_failure net env repo pr_number review_body payload e w1"
    using assms by (rule submit_failed)
  have 1: "fst (submit net env repo pr_number review_body payload w) = Inr ()"
    by (rule submit_returns)
  have 2: "api_calls ?w' = api_calls w @ [PostPullReview review_body payload, PostIssueComment ?notice]"
  proof (cases "post_issue_comment net repo pr_number ?notice ?w2")
    case (Pair r w3)
    with calls3 have "api_calls w3 =
        api_calls w @ [PostPullReview review_body payload, PostIssueComment ?notice]" by simp
    with Pair show ?thesis
      by (cases r) (simp_all add: sub notify_failure_unfold Let_def)
  qed
  have tail: "tail_lines_of ?ring2 \<noteq> []"
    by (simp add: warn_def ring_append_nonempty tail_lines_of_nonempty)
  have 3: "contains e ?notice"
    by (intro contains_join_mem failure_notice_lines_mem)
  have 4: "contains (notice_overall_label @ (if review_body \<noteq> [] then notice_yes else notice_no)) ?notice"
    by (intro contains_join_mem failure_notice_lines_mem)
  have 5: "contains (notice_inline_label @ str_nat (length payload)) ?notice"
    by (intro contains_join_mem failure_notice_lines_mem)
  have 6: "case run_url_of env repo of
               Some u \<Rightarrow> contains (notice_log_link_label @ u) ?notice \<and> length ?lines = 17
             | None \<Rightarrow> length ?lines = 15"
  proof (cases "run_url_of env repo")
    case None
    then show ?thesis using failure_notice_lines_length[OF tail, of e review_body payload None]
      by simp
  next
    case (Some u)
    have "contains (notice_log_link_label @ u) ?notice"
      by (intro contains_join_mem failure_notice_lines_mem(4)) (rule Some)
    then show ?thesis
      using failure_notice_lines_length[OF tail, of e review_body payload "Some u"] Some by simp
  qed
  have 7: "contains (sanitize_fence (join [10] (tail_lines_of ?ring2))) ?notice"
    by (intro contains_join_mem failure_notice_lines_mem(5)) (rule tail)
  have 8: "requests w1 = requests w @
      replicate 3 (reviews_url repo pr_number, ReviewPayload review_body (ascii ''COMMENT'') payload)"
  proof -
    let ?w0 = "w\<lparr>api_calls := api_calls w @ [PostPullReview review_body payload]\<rparr>"
    from assms have "gh_post net (reviews_url repo pr_number)
        (ReviewPayload review_body (ascii ''COMMENT'') payload) ?w0 = (Inl e, w1)"
      by (simp add: post_pull_review_def bind_io_def called_def)
    from gh_post_failed_requests[OF this] show ?thesis by simp
  qed
  have 9: "\<exists>n. 1 \<le> n \<and> n \<le> 3 \<and>
      requests ?w' = requests w1 @
        replicate n (issue_comments_url repo pr_number, CommentPayload ?notice) \<and>
      (\<forall>k < n - 1. outcome_of (issue_comments_url repo pr_number)
                       (net (length (requests w1) + k)) \<noteq> Inr ()) \<and>
      (n < 3 \<longrightarrow> outcome_of (issue_comments_url repo pr_number)
                       (net (length (requests w1) + (n - 1))) = Inr ())"
  proof -
    let ?url = "issue_comments_url repo pr_number"
    let ?w2c = "?w2\<lparr>api_calls := api_calls ?w2 @ [PostIssueComment ?notice]\<rparr>"
    have pic: "post_issue_comment net repo pr_number ?notice ?w2 =
        gh_post net ?url (CommentPayload ?notice) ?w2c"
      by (simp add: post_issue_comment_def bind_io_def called_def)
    have req: "requests ?w' = requests (snd (gh_post net ?url (CommentPayload ?notice) ?w2c))"
      by (cases "gh_post net ?url (CommentPayload ?notice) ?w2c")
         (auto simp: sub notify_failure_unfold Let_def pic split: sum.splits)
    from gh_post_requests[of net ?url "CommentPayload ?notice" ?w2c]
    obtain n where n: "1 \<le> n" "n \<le> 3"
      "requests (snd (gh_post net ?url (CommentPayload ?notice) ?w2c)) =
         requests ?w2c @ replicate n (?url, CommentPayload ?notice)"
      "\<forall>k < n - 1. outcome_of ?url (net (length (requests ?w2c) + k)) \<noteq> Inr ()"
      "fst (gh_post net ?url (CommentPayload ?notice) ?w2c) = Inr () \<longleftrightarrow>
          outcome_of ?url (net (length (requests ?w2c) + (n - 1))) = Inr ()"
      "fst (gh_post net ?url (CommentPayload ?notice) ?w2c) \<noteq> Inr () \<longrightarrow> n = 3"
      by blast
    from n(5,6) have "n < 3 \<longrightarrow> outcome_of ?url (net (length (requests ?w2c) + (n - 1))) = Inr ()"
      by auto
    with n(1-4) req show ?thesis
      by (intro exI[of _ n]) simp
  qed
  have 10: "take 8 ?lines =
      [notice_title, [], notice_reason, fence @ ascii ''text'', e, fence,
       notice_overall_label @ (if review_body \<noteq> [] then notice_yes else notice_no),
       notice_inline_label @ str_nat (length payload)]"
    by (simp add: failure_notice_lines_def Let_def split: option.splits)
  have 11: "sanitize_fence (join [10] (tail_lines_of ?ring2)) \<in> set ?lines"
    by (intro failure_notice_lines_mem(5)) (rule tail)
  have 12: "sanitize_fence (join [10] (tail_lines_of ?ring2)) =
      replace [96, 96, 96] [96, 96, 8203, 96] (strip (join [10] (tail_lines_of ?ring2)))"
    by (simp add: sanitize_fence_def fence_def backtick_def zwsp_def)
  have 13: "tail_lines_of ?ring2 = drop (length ?ring2 - 120) ?ring2"
    by (simp add: tail_lines_of_def)
  have 14: "length (tail_lines_of ?ring2) \<le> 120"
    by (simp add: tail_lines_of_def)
  have 15: "last (tail_lines_of ?ring2) = ascii ''[WARN] post_pull_review failed: '' @ e"
  proof -
    have ne: "?ring2 \<noteq> []" by (simp add: warn_def ring_append_nonempty)
    then have "length ?ring2 - 120 < length ?ring2" by (cases ?ring2) auto
    then have "last (drop (length ?ring2 - 120) ?ring2) = last ?ring2" by (rule last_drop)
    then show ?thesis by (simp add: tail_lines_of_def warn_def last_ring_append ascii_def)
  qed
  from 1 2 3 4 5 6 7 8 9 10 11 12 13 14 15 tail run_url_of_None[of env repo] show ?thesis
    by (simp only: Let_def) blast
qed

text \<open>
  C9. \<open>submit\<close>, the last statement of \<open>main\<close>, returns for every answer of the
  network: no exception leaves it. When posting the notice raises \<open>e2\<close>, the run ends
  in the world that call left, with one more entry in the log, and that newest entry
  of the log is the warning \<open>[WARN] failed to post failure notice: e2\<close>.
\<close>

theorem notice_failure_swallowed:
  "fst (submit net env repo pr_number review_body payload w) = Inr () \<and>
   (\<forall>e w1 e2 w3.
      post_pull_review net repo pr_number review_body payload w = (Inl e, w1) \<and>
      post_issue_comment net repo pr_number
        (join [10] (failure_notice_lines e review_body payload (run_url_of env repo)
                      (warn (ascii ''post_pull_review failed: '' @ e) (ring w1))))
        (w1\<lparr>ring := warn (ascii ''post_pull_review failed: '' @ e) (ring w1)\<rparr>) = (Inl e2, w3) \<longrightarrow>
      submit net env repo pr_number review_body payload w =
        (Inr (), w3\<lparr>ring := warn (ascii ''failed to post failure notice: '' @ e2) (ring w3)\<rparr>) \<and>
      ring (snd (submit net env repo pr_number review_body payload w)) \<noteq> [] \<and>
      last (ring (snd (submit net env repo pr_number review_body payload w))) =
        ascii ''[WARN] failed to post failure notice: '' @ e2 \<and>
      (length (ring w3) < 1000 \<longrightarrow>
         ring (snd (submit net env repo pr_number review_body payload w)) =
           ring w3 @ [ascii ''[WARN] failed to post failure notice: '' @ e2]) \<and>
      api_calls (snd (submit net env repo pr_number review_body payload w)) = api_calls w3 \<and>
      requests (snd (submit net env repo pr_number review_body payload w)) = requests w3)"
proof -
  have 1: "fst (submit net env repo pr_number review_body payload w) = Inr ()"
    by (rule submit_returns)
  have 3: "\<forall>e w1 e2 w3.
      post_pull_review net repo pr_number review_body payload w = (Inl e, w1) \<and>
      post_issue_comment net repo pr_number
        (join [10] (failure_notice_lines e review_body payload (run_url_of env repo)
                      (warn (ascii ''post_pull_review failed: '' @ e) (ring w1))))
        (w1\<lparr>ring := warn (ascii ''post_pull_review failed: '' @ e) (ring w1)\<rparr>) = (Inl e2, w3) \<longrightarrow>
      submit net env repo pr_number review_body payload w =
        (Inr (), w3\<lparr>ring := warn (ascii ''failed to post failure notice: '' @ e2) (ring w3)\<rparr>) \<and>
      ring (snd (submit net env repo pr_number review_body payload w)) \<noteq> [] \<and>
      last (ring (snd (submit net env repo pr_number review_body payload w))) =
        ascii ''[WARN] failed to post failure notice: '' @ e2 \<and>
      (length (ring w3) < 1000 \<longrightarrow>
         ring (snd (submit net env repo pr_number review_body payload w)) =
           ring w3 @ [ascii ''[WARN] failed to post failure notice: '' @ e2]) \<and>
      api_calls (snd (submit net env repo pr_number review_body payload w)) = api_calls w3 \<and>
      requests (snd (submit net env repo pr_number review_body payload w)) = requests w3"
  proof (intro allI impI, elim conjE)
    fix e w1 e2 w3
    assume a: "post_pull_review net repo pr_number review_body payload w = (Inl e, w1)"
      and b: "post_issue_comment net repo pr_number
        (join [10] (failure_notice_lines e review_body payload (run_url_of env repo)
                      (warn (ascii ''post_pull_review failed: '' @ e) (ring w1))))
        (w1\<lparr>ring := warn (ascii ''post_pull_review failed: '' @ e) (ring w1)\<rparr>) = (Inl e2, w3)"
    have s: "submit net env repo pr_number review_body payload w =
        (Inr (), w3\<lparr>ring := warn (ascii ''failed to post failure notice: '' @ e2) (ring w3)\<rparr>)"
      using a b by (simp add: submit_failed notify_failure_unfold Let_def)
    have l: "last (warn (ascii ''failed to post failure notice: '' @ e2) (ring w3)) =
        ascii ''[WARN] failed to post failure notice: '' @ e2"
      by (simp add: warn_def last_ring_append ascii_def)
    have f: "length (ring w3) < 1000 \<longrightarrow>
        warn (ascii ''failed to post failure notice: '' @ e2) (ring w3) =
          ring w3 @ [ascii ''[WARN] failed to post failure notice: '' @ e2]"
      by (simp add: warn_def ring_append_def ascii_def)
    have n: "warn (ascii ''failed to post failure notice: '' @ e2) (ring w3) \<noteq> []"
      by (simp add: warn_def ring_append_nonempty)
    from s l f n show "submit net env repo pr_number review_body payload w =
        (Inr (), w3\<lparr>ring := warn (ascii ''failed to post failure notice: '' @ e2) (ring w3)\<rparr>) \<and>
      ring (snd (submit net env repo pr_number review_body payload w)) \<noteq> [] \<and>
      last (ring (snd (submit net env repo pr_number review_body payload w))) =
        ascii ''[WARN] failed to post failure notice: '' @ e2 \<and>
      (length (ring w3) < 1000 \<longrightarrow>
         ring (snd (submit net env repo pr_number review_body payload w)) =
           ring w3 @ [ascii ''[WARN] failed to post failure notice: '' @ e2]) \<and>
      api_calls (snd (submit net env repo pr_number review_body payload w)) = api_calls w3 \<and>
      requests (snd (submit net env repo pr_number review_body payload w)) = requests w3"
      by simp
  qed
  from 1 3 show ?thesis by blast
qed


lemmas io_simps =
  post_pull_review_def post_issue_comment_def bind_io_def called_def gh_post_def
  try_except_def post_once_def outcome_of_def Let_def raise_io_def warn_io_def return_io_def
  info_io_def str_nat.simps str_int_def api_base_def reviews_url_def issue_comments_url_def
  ascii_def warn_def info_def ring_append_def upt_conv_Cons

theorem failed_submission_one_notice_witness:
  "\<exists>e w1 notice.
     post_pull_review (\<lambda>k. if k < 3 then Response 422 (ascii ''no'') else Response 201 [])
       (ascii ''o/r'') 7 (ascii ''ok'')
       [\<lparr>rc_path = ascii ''a.md'', rc_line = 3, rc_side = ascii ''RIGHT'', rc_body = ascii ''x''\<rparr>,
        \<lparr>rc_path = ascii ''a.md'', rc_line = 9, rc_side = ascii ''RIGHT'', rc_body = ascii ''y''\<rparr>]
       \<lparr>requests = [], api_calls = [], ring = []\<rparr> = (Inl e, w1) \<and>
     notice = join [10] (failure_notice_lines e (ascii ''ok'')
          [\<lparr>rc_path = ascii ''a.md'', rc_line = 3, rc_side = ascii ''RIGHT'', rc_body = ascii ''x''\<rparr>,
           \<lparr>rc_path = ascii ''a.md'', rc_line = 9, rc_side = ascii ''RIGHT'', rc_body = ascii ''y''\<rparr>]
          (run_url_of (\<lambda>key. if key = ascii ''GITHUB_RUN_ID'' then Some (ascii ''42'') else None)
             (ascii ''o/r''))
          (warn (ascii ''post_pull_review failed: '' @ e) (ring w1))) \<and>
     api_calls (snd (submit (\<lambda>k. if k < 3 then Response 422 (ascii ''no'') else Response 201 [])
        (\<lambda>key. if key = ascii ''GITHUB_RUN_ID'' then Some (ascii ''42'') else None)
        (ascii ''o/r'') 7 (ascii ''ok'')
        [\<lparr>rc_path = ascii ''a.md'', rc_line = 3, rc_side = ascii ''RIGHT'', rc_body = ascii ''x''\<rparr>,
         \<lparr>rc_path = ascii ''a.md'', rc_line = 9, rc_side = ascii ''RIGHT'', rc_body = ascii ''y''\<rparr>]
        \<lparr>requests = [], api_calls = [], ring = []\<rparr>)) =
       [PostPullReview (ascii ''ok'')
          [\<lparr>rc_path = ascii ''a.md'', rc_line = 3, rc_side = ascii ''RIGHT'', rc_body = ascii ''x''\<rparr>,
           \<lparr>rc_path = ascii ''a.md'', rc_line = 9, rc_side = ascii ''RIGHT'', rc_body = ascii ''y''\<rparr>],
        PostIssueComment notice] \<and>
     requests (snd (submit (\<lambda>k. if k < 3 then Response 422 (ascii ''no'') else Response 201 [])
        (\<lambda>key. if key = ascii ''GITHUB_RUN_ID'' then Some (ascii ''42'') else None)
        (ascii ''o/r'') 7 (ascii ''ok'')
        [\<lparr>rc_path = ascii ''a.md'', rc_line = 3, rc_side = ascii ''RIGHT'', rc_body = ascii ''x''\<rparr>,
         \<lparr>rc_path = ascii ''a.md'', rc_line = 9, rc_side = ascii ''RIGHT'', rc_body = ascii ''y''\<rparr>]
        \<lparr>requests = [], api_calls = [], ring = []\<rparr>)) =
       replicate 3 (ascii ''https://api.github.com/repos/o/r/pulls/7/reviews'',
          ReviewPayload (ascii ''ok'') (ascii ''COMMENT'')
            [\<lparr>rc_path = ascii ''a.md'', rc_line = 3, rc_side = ascii ''RIGHT'', rc_body = ascii ''x''\<rparr>,
             \<lparr>rc_path = ascii ''a.md'', rc_line = 9, rc_side = ascii ''RIGHT'', rc_body = ascii ''y''\<rparr>]) @
       [(ascii ''https://api.github.com/repos/o/r/issues/7/comments'', CommentPayload notice)] \<and>
     e = ascii ''POST https://api.github.com/repos/o/r/pulls/7/reviews failed: 422 no'' \<and>
     contains e notice \<and>
     contains (notice_inline_label @ ascii ''2'') notice \<and>
     contains (notice_log_link_label @ ascii ''https://github.com/o/r/actions/runs/42'') notice \<and>
     contains
       (ascii ''[WARN] POST retry 1/2 after error: POST https://api.github.com/repos/o/r/pulls/7/reviews failed: 422 no'' @ [10] @
        ascii ''[WARN] POST retry 2/2 after error: POST https://api.github.com/repos/o/r/pulls/7/reviews failed: 422 no'' @ [10] @
        ascii ''[WARN] post_pull_review failed: POST https://api.github.com/repos/o/r/pulls/7/reviews failed: 422 no'')
       notice"
proof -
  let ?net = "\<lambda>k::nat. if k < 3 then Response 422 (ascii ''no'') else Response 201 []"
  let ?env = "\<lambda>key. if key = ascii ''GITHUB_RUN_ID'' then Some (ascii ''42'') else None"
  let ?w = "\<lparr>requests = [], api_calls = [], ring = []\<rparr>"
  let ?pl = "[\<lparr>rc_path = ascii ''a.md'', rc_line = 3, rc_side = ascii ''RIGHT'', rc_body = ascii ''x''\<rparr>,
       \<lparr>rc_path = ascii ''a.md'', rc_line = 9, rc_side = ascii ''RIGHT'', rc_body = ascii ''y''\<rparr>]"
  let ?e = "ascii ''POST https://api.github.com/repos/o/r/pulls/7/reviews failed: 422 no''"
  have "\<exists>w1. post_pull_review ?net (ascii ''o/r'') 7 (ascii ''ok'') ?pl ?w = (Inl ?e, w1) \<and>
      ring w1 = [ascii ''[WARN] POST retry 1/2 after error: POST https://api.github.com/repos/o/r/pulls/7/reviews failed: 422 no'',
                 ascii ''[WARN] POST retry 2/2 after error: POST https://api.github.com/repos/o/r/pulls/7/reviews failed: 422 no'']"
    by (simp add: io_simps)
  then obtain e w1 where h: "post_pull_review ?net (ascii ''o/r'') 7 (ascii ''ok'') ?pl ?w = (Inl e, w1)"
    and e: "e = ?e"
    and rw: "ring w1 = [ascii ''[WARN] POST retry 1/2 after error: POST https://api.github.com/repos/o/r/pulls/7/reviews failed: 422 no'',
                 ascii ''[WARN] POST retry 2/2 after error: POST https://api.github.com/repos/o/r/pulls/7/reviews failed: 422 no'']"
    by blast
  let ?notice = "join [10] (failure_notice_lines e (ascii ''ok'') ?pl (run_url_of ?env (ascii ''o/r''))
          (warn (ascii ''post_pull_review failed: '' @ e) (ring w1)))"
  let ?w' = "snd (submit ?net ?env (ascii ''o/r'') 7 (ascii ''ok'') ?pl ?w)"
  note t = failed_submission_one_notice[OF h, of ?env, unfolded Let_def]
  from t have calls: "api_calls ?w' = [PostPullReview (ascii ''ok'') ?pl, PostIssueComment ?notice]"
    by simp
  from t have c1: "contains e ?notice" by blast
  have two: "str_nat (length ?pl) = ascii ''2''" by (simp add: str_nat.simps ascii_def)
  from t have "contains (notice_inline_label @ str_nat (length ?pl)) ?notice" by blast
  then have c2: "contains (notice_inline_label @ ascii ''2'') ?notice" by (simp only: two)
  have url: "run_url_of ?env (ascii ''o/r'') = Some (ascii ''https://github.com/o/r/actions/runs/42'')"
    by (simp add: run_url_of_def environ_get_def ascii_def)
  from t have "case run_url_of ?env (ascii ''o/r'') of
      Some u \<Rightarrow> contains (notice_log_link_label @ u) ?notice \<and>
                 length (failure_notice_lines e (ascii ''ok'') ?pl (run_url_of ?env (ascii ''o/r''))
                   (warn (ascii ''post_pull_review failed: '' @ e) (ring w1))) = 17
    | None \<Rightarrow> length (failure_notice_lines e (ascii ''ok'') ?pl (run_url_of ?env (ascii ''o/r''))
                   (warn (ascii ''post_pull_review failed: '' @ e) (ring w1))) = 15"
    by blast
  then have c3: "contains (notice_log_link_label @ ascii ''https://github.com/o/r/actions/runs/42'') ?notice"
    by (simp add: url)
  have rurl: "reviews_url (ascii ''o/r'') 7 = ascii ''https://api.github.com/repos/o/r/pulls/7/reviews''"
    by (simp add: reviews_url_def api_base_def str_int_def str_nat.simps ascii_def)
  have iurl: "issue_comments_url (ascii ''o/r'') 7 = ascii ''https://api.github.com/repos/o/r/issues/7/comments''"
    by (simp add: issue_comments_url_def api_base_def str_int_def str_nat.simps ascii_def)
  from t have r1: "requests w1 = replicate 3 (reviews_url (ascii ''o/r'') 7,
      ReviewPayload (ascii ''ok'') (ascii ''COMMENT'') ?pl)"
    by simp
  then have len: "length (requests w1) = 3" by simp
  from t obtain n where n: "1 \<le> n" "n \<le> 3"
    "requests ?w' = requests w1 @ replicate n (issue_comments_url (ascii ''o/r'') 7, CommentPayload ?notice)"
    "\<forall>k < n - 1. outcome_of (issue_comments_url (ascii ''o/r'') 7)
                    (?net (length (requests w1) + k)) \<noteq> Inr ()"
    by blast
  have ok: "outcome_of (issue_comments_url (ascii ''o/r'') 7) (?net (length (requests w1) + 0)) = Inr ()"
    by (simp add: len outcome_of_def)
  have "n = 1"
  proof (rule ccontr)
    assume "n \<noteq> 1"
    with n(1) have "0 < n - 1" by simp
    with n(4) ok show False by blast
  qed
  with n(3) r1 have reqs: "requests ?w' =
      replicate 3 (ascii ''https://api.github.com/repos/o/r/pulls/7/reviews'',
          ReviewPayload (ascii ''ok'') (ascii ''COMMENT'') ?pl) @
      [(ascii ''https://api.github.com/repos/o/r/issues/7/comments'', CommentPayload ?notice)]"
    by (simp add: rurl iurl)
  have sj: "sanitize_fence (join [10] (tail_lines_of (warn (ascii ''post_pull_review failed: '' @ e) (ring w1)))) =
      (ascii ''[WARN] POST retry 1/2 after error: POST https://api.github.com/repos/o/r/pulls/7/reviews failed: 422 no'' @ [10] @
        ascii ''[WARN] POST retry 2/2 after error: POST https://api.github.com/repos/o/r/pulls/7/reviews failed: 422 no'' @ [10] @
        ascii ''[WARN] post_pull_review failed: POST https://api.github.com/repos/o/r/pulls/7/reviews failed: 422 no'')"
    by (simp add: e rw warn_def ring_append_def tail_lines_of_def sanitize_fence_def replace_def
        fence_def backtick_def zwsp_def strip_def isspace_def ascii_def)
  from t have "contains (sanitize_fence (join [10]
      (tail_lines_of (warn (ascii ''post_pull_review failed: '' @ e) (ring w1))))) ?notice"
    by blast
  then have c4: "contains
      (ascii ''[WARN] POST retry 1/2 after error: POST https://api.github.com/repos/o/r/pulls/7/reviews failed: 422 no'' @ [10] @
        ascii ''[WARN] POST retry 2/2 after error: POST https://api.github.com/repos/o/r/pulls/7/reviews failed: 422 no'' @ [10] @
        ascii ''[WARN] post_pull_review failed: POST https://api.github.com/repos/o/r/pulls/7/reviews failed: 422 no'')
      ?notice"
    by (simp only: sj)
  from h e calls reqs c1 c2 c3 c4 show ?thesis by blast
qed

theorem notice_failure_swallowed_witness:
  "\<exists>e w1 e2 w3.
     post_pull_review (\<lambda>k. Raises (ascii ''down'')) (ascii ''o/r'') 7 (ascii ''ok'') []
       \<lparr>requests = [], api_calls = [], ring = []\<rparr> = (Inl e, w1) \<and>
     post_issue_comment (\<lambda>k. Raises (ascii ''down'')) (ascii ''o/r'') 7
       (join [10] (failure_notice_lines e (ascii ''ok'') [] (run_url_of (\<lambda>key. None) (ascii ''o/r''))
                     (warn (ascii ''post_pull_review failed: '' @ e) (ring w1))))
       (w1\<lparr>ring := warn (ascii ''post_pull_review failed: '' @ e) (ring w1)\<rparr>) = (Inl e2, w3) \<and>
     e2 = ascii ''down'' \<and>
     fst (submit (\<lambda>k. Raises (ascii ''down'')) (\<lambda>key. None) (ascii ''o/r'') 7 (ascii ''ok'') []
       \<lparr>requests = [], api_calls = [], ring = []\<rparr>) = Inr () \<and>
     last (ring (snd (submit (\<lambda>k. Raises (ascii ''down'')) (\<lambda>key. None) (ascii ''o/r'') 7
       (ascii ''ok'') [] \<lparr>requests = [], api_calls = [], ring = []\<rparr>))) =
       ascii ''[WARN] failed to post failure notice: down''"
proof -
  let ?net = "\<lambda>k::nat. Raises (ascii ''down'')"
  let ?env = "\<lambda>key::pystr. None :: pystr option"
  let ?w = "\<lparr>requests = [], api_calls = [], ring = []\<rparr>"
  have "\<exists>e w1. post_pull_review ?net (ascii ''o/r'') 7 (ascii ''ok'') [] ?w = (Inl e, w1)"
    by (simp add: io_simps)
  then obtain e w1 where h1: "post_pull_review ?net (ascii ''o/r'') 7 (ascii ''ok'') [] ?w = (Inl e, w1)"
    by blast
  let ?notice = "join [10] (failure_notice_lines e (ascii ''ok'') [] (run_url_of ?env (ascii ''o/r''))
                     (warn (ascii ''post_pull_review failed: '' @ e) (ring w1)))"
  let ?w2 = "w1\<lparr>ring := warn (ascii ''post_pull_review failed: '' @ e) (ring w1)\<rparr>"
  have "\<exists>w3. post_issue_comment ?net (ascii ''o/r'') 7 ?notice ?w2 = (Inl (ascii ''down''), w3)"
    by (simp add: io_simps del: join.simps)
  then obtain w3 where h2: "post_issue_comment ?net (ascii ''o/r'') 7 ?notice ?w2 = (Inl (ascii ''down''), w3)"
    by blast
  note t = notice_failure_swallowed[of ?net ?env "ascii ''o/r''" 7 "ascii ''ok''" "[]" ?w]
  from t have r: "fst (submit ?net ?env (ascii ''o/r'') 7 (ascii ''ok'') [] ?w) = Inr ()" by blast
  from t h1 h2 have "last (ring (snd (submit ?net ?env (ascii ''o/r'') 7 (ascii ''ok'') [] ?w))) =
       ascii ''[WARN] failed to post failure notice: '' @ ascii ''down''"
    by blast
  then have "last (ring (snd (submit ?net ?env (ascii ''o/r'') 7 (ascii ''ok'') [] ?w))) =
       ascii ''[WARN] failed to post failure notice: down''"
    by (simp add: ascii_def)
  with h1 h2 r show ?thesis by blast
qed

end
